theory Spec2Isabelle
  imports Complex_Main
begin

section \<open>Numbers and the library functions the sketch calls\<close>

text \<open>
  The sketch \<^verbatim>\<open>p5.js.mandelbrot1.js\<close> computes with JavaScript Numbers. In this
  development a Number that holds a pixel count, an index or an iteration count is a
  \<open>nat\<close>, and every other Number is a \<open>real\<close>: arithmetic is exact, so rounding,
  infinities and NaN are outside the model. \<^verbatim>\<open>Math.sqrt\<close>, \<^verbatim>\<open>Math.max\<close> and
  \<^verbatim>\<open>Math.min\<close> are \<open>sqrt\<close>, \<open>max\<close> and \<open>min\<close>. Byte values are naturals below 256.
\<close>

definition Math_floor :: "real \<Rightarrow> int" where
  "Math_floor x = \<lfloor>x\<rfloor>"

definition Math_ceil :: "real \<Rightarrow> int" where
  "Math_ceil x = \<lceil>x\<rceil>"

definition Math_round :: "real \<Rightarrow> int" where
  \<comment> \<open>\<^verbatim>\<open>Math.round\<close>: the nearest integer, a tie going up.\<close>
  "Math_round x = \<lfloor>x + 1 / 2\<rfloor>"

definition js_rem :: "real \<Rightarrow> real \<Rightarrow> real" where
  \<comment> \<open>The operator \<^verbatim>\<open>%\<close>: the quotient is truncated towards zero, so the result has
      the sign of the dividend.\<close>
  "js_rem a b = a - b * of_int (if a / b < 0 then \<lceil>a / b\<rceil> else \<lfloor>a / b\<rfloor>)"

definition Math_log :: "real \<Rightarrow> real" where
  \<comment> \<open>\<^verbatim>\<open>Math.log\<close>, meant for a positive argument only.\<close>
  "Math_log x = ln x"

definition Math_LN2 :: real where
  "Math_LN2 = ln 2"

definition toUint8Clamped :: "int \<Rightarrow> nat" where
  \<comment> \<open>What a \<^verbatim>\<open>Uint8ClampedArray\<close> keeps of an integer stored into it.\<close>
  "toUint8Clamped k = nat (max 0 (min 255 k))"

section \<open>Configuration and tile geometry\<close>

text \<open>The constants and variables at the top of the sketch.\<close>

record config =
  MAX_ITER :: nat
  ESCAPE_RADIUS :: real
  WORKER_COUNT :: nat
  FULL_WIDTH :: nat
  FULL_HEIGHT :: nat
  ROWS :: nat
  COLS :: nat
  ROW :: nat
  COL :: nat
  cenX :: real
  cenY :: real
  zoom :: real

definition WORKER_COUNT_of :: "nat option \<Rightarrow> nat" where
  \<comment> \<open>\<^verbatim>\<open>navigator.hardwareConcurrency + 2 || 4\<close>: the sum, or 4 when the property is
      missing and the sum is not a number.\<close>
  "WORKER_COUNT_of hardwareConcurrency =
     (case hardwareConcurrency of None \<Rightarrow> 4 | Some k \<Rightarrow> if k + 2 = 0 then 4 else k + 2)"

definition ASPECT_RATIO :: "config \<Rightarrow> real" where
  "ASPECT_RATIO cfg = real (FULL_WIDTH cfg) / real (FULL_HEIGHT cfg)"

text \<open>The four globals \<^verbatim>\<open>tileX, tileY, tileWidth, tileHeight\<close> that \<^verbatim>\<open>setup\<close> assigns.\<close>

record tile =
  tileX :: nat
  tileY :: nat
  tileWidth :: nat
  tileHeight :: nat

definition setup_tile :: "config \<Rightarrow> tile" where
  \<comment> \<open>The geometry part of \<^verbatim>\<open>setup()\<close>.\<close>
  "setup_tile cfg =
     (let tileWidth0 = nat (Math_floor (real (FULL_WIDTH cfg) / real (COLS cfg)));
          tileHeight0 = nat (Math_floor (real (FULL_HEIGHT cfg) / real (ROWS cfg)));
          extraW = FULL_WIDTH cfg - tileWidth0 * COLS cfg;
          extraH = FULL_HEIGHT cfg - tileHeight0 * ROWS cfg
      in \<lparr>tileX = COL cfg * tileWidth0,
          tileY = ROW cfg * tileHeight0,
          tileWidth =
            (if int (COL cfg) = int (COLS cfg) - 1 then tileWidth0 + extraW else tileWidth0),
          tileHeight =
            (if int (ROW cfg) = int (ROWS cfg) - 1 then tileHeight0 + extraH else tileHeight0)\<rparr>)"

definition tile_at :: "config \<Rightarrow> nat \<Rightarrow> nat \<Rightarrow> tile" where
  \<comment> \<open>The tile of the run whose manual controls are \<open>ROW = row\<close> and \<open>COL = col\<close>.\<close>
  "tile_at cfg row col = setup_tile (cfg\<lparr>ROW := row, COL := col\<rparr>)"

definition in_tile :: "tile \<Rightarrow> nat \<Rightarrow> nat \<Rightarrow> bool" where
  \<comment> \<open>The pixel \<open>(px, py)\<close> of the full image lies in the tile's rectangle.\<close>
  "in_tile t px py \<longleftrightarrow>
     tileX t \<le> px \<and> px < tileX t + tileWidth t \<and> tileY t \<le> py \<and> py < tileY t + tileHeight t"

section \<open>The worker\<close>

text \<open>
  The object posted to a worker. The fields \<open>m_tileWidth\<close>, \<open>m_tileHeight\<close>,
  \<open>m_cenX\<close>, \<open>m_cenY\<close> and \<open>m_zoom\<close> are the source's \<^verbatim>\<open>tileWidth\<close>, \<^verbatim>\<open>tileHeight\<close>,
  \<^verbatim>\<open>cenX\<close>, \<^verbatim>\<open>cenY\<close> and \<^verbatim>\<open>zoom\<close>; the prefix keeps them apart from the globals.
\<close>

record message =
  m_tileWidth :: nat
  m_tileHeight :: nat
  startYInTile :: nat
  endYInTile :: nat
  fullWidth :: nat
  fullHeight :: nat
  tileOffsetX :: nat
  tileOffsetY :: nat
  maxIter :: nat
  m_cenX :: real
  m_cenY :: real
  m_zoom :: real
  aspectRatio :: real

text \<open>What the worker posts back.\<close>

record reply =
  pixels :: "nat list"
  r_startYInTile :: nat
  r_endYInTile :: nat

datatype js_error = RangeError | IndexSizeError | InvalidStateError

subsection \<open>Coordinate mapping\<close>

definition xScale :: "message \<Rightarrow> real" where
  "xScale m = (m_zoom m * 2 * aspectRatio m) / real (fullWidth m)"

definition yScale :: "message \<Rightarrow> real" where
  "yScale m = (m_zoom m * 2) / real (fullHeight m)"

definition globalY :: "message \<Rightarrow> nat \<Rightarrow> nat" where
  "globalY m y = tileOffsetY m + y"

definition globalX :: "message \<Rightarrow> nat \<Rightarrow> nat" where
  "globalX m x = tileOffsetX m + x"

definition pixel_cy :: "message \<Rightarrow> nat \<Rightarrow> real" where
  "pixel_cy m y = (real (globalY m y) - real (fullHeight m) / 2) * yScale m + m_cenY m"

definition pixel_cx :: "message \<Rightarrow> nat \<Rightarrow> real" where
  "pixel_cx m x = (real (globalX m x) - real (fullWidth m) / 2) * xScale m + m_cenX m"

subsection \<open>The escape loop\<close>

record zstate =
  zx :: real
  zy :: real
  zx2 :: real
  zy2 :: real
  iter :: nat

definition z_init :: zstate where
  "z_init = \<lparr>zx = 0, zy = 0, zx2 = 0, zy2 = 0, iter = 0\<rparr>"

definition z_step :: "real \<Rightarrow> real \<Rightarrow> zstate \<Rightarrow> zstate" where
  \<comment> \<open>The body of the \<^verbatim>\<open>while\<close> loop: the new \<open>zx\<close> uses the squares of the old state.\<close>
  "z_step cx cy s =
     (let zy' = 2 * zx s * zy s + cy;
          zx' = zx2 s - zy2 s + cx
      in \<lparr>zx = zx', zy = zy', zx2 = zx' * zx', zy2 = zy' * zy', iter = iter s + 1\<rparr>)"

function mandel_loop :: "real \<Rightarrow> real \<Rightarrow> nat \<Rightarrow> zstate \<Rightarrow> zstate" where
  "mandel_loop cx cy n s =
     (if zx2 s + zy2 s < 4 \<and> iter s < n then mandel_loop cx cy n (z_step cx cy s) else s)"
  by pat_completeness auto
termination
  by (relation "measure (\<lambda>(cx, cy, n, s). n - iter s)") (auto simp: z_step_def Let_def)

declare mandel_loop.simps [simp del]

subsection \<open>Colour\<close>

record rgb =
  r :: int
  g :: int
  b :: int

definition hsbToRgb :: "real \<Rightarrow> real \<Rightarrow> real \<Rightarrow> rgb option" where
  \<comment> \<open>The conversion on finite arguments, as the worker of this model calls it.
      \<open>None\<close> stands for the \<^verbatim>\<open>switch\<close> matching no case, which leaves \<^verbatim>\<open>r, g, b\<close>
      undefined. \<open>hsbToRgb_Number\<close> below is the same function on all Numbers.\<close>
  "hsbToRgb h0 s0 v0 =
     (let h = js_rem (js_rem h0 360 + 360) 360;
          s = max 0 (min 100 s0) / 100;
          v = max 0 (min 100 v0) / 100;
          i = Math_floor (h / 60);
          f = h / 60 - of_int i;
          p = v * (1 - s);
          q = v * (1 - s * f);
          t = v * (1 - s * (1 - f));
          k = js_rem (of_int i) 6;
          sel = (if k = 0 then Some (v, t, p)
                 else if k = 1 then Some (q, v, p)
                 else if k = 2 then Some (p, v, t)
                 else if k = 3 then Some (p, q, v)
                 else if k = 4 then Some (t, p, v)
                 else if k = 5 then Some (v, p, q)
                 else None)
      in case sel of
           None \<Rightarrow> None
         | Some (r', g', b') \<Rightarrow>
             Some \<lparr>r = Math_round (r' * 255), g = Math_round (g' * 255), b = Math_round (b' * 255)\<rparr>)"

text \<open>
  The conversion on every Number. A Number is a finite value, an infinity or NaN; the
  operations are those of JavaScript without rounding, and zero has no sign.
\<close>

datatype Number = Finite real | PosInfinity | NegInfinity | NaN

fun N_neg :: "Number \<Rightarrow> Number" where
  "N_neg (Finite x) = Finite (- x)"
| "N_neg PosInfinity = NegInfinity"
| "N_neg NegInfinity = PosInfinity"
| "N_neg NaN = NaN"

fun N_add :: "Number \<Rightarrow> Number \<Rightarrow> Number" where
  "N_add (Finite x) (Finite y) = Finite (x + y)"
| "N_add NaN y = NaN"
| "N_add x NaN = NaN"
| "N_add PosInfinity NegInfinity = NaN"
| "N_add NegInfinity PosInfinity = NaN"
| "N_add PosInfinity y = PosInfinity"
| "N_add x PosInfinity = PosInfinity"
| "N_add NegInfinity y = NegInfinity"
| "N_add x NegInfinity = NegInfinity"

definition N_sub :: "Number \<Rightarrow> Number \<Rightarrow> Number" where
  "N_sub x y = N_add x (N_neg y)"

fun N_mul :: "Number \<Rightarrow> Number \<Rightarrow> Number" where
  "N_mul (Finite x) (Finite y) = Finite (x * y)"
| "N_mul NaN y = NaN"
| "N_mul x NaN = NaN"
| "N_mul (Finite x) y = (if x = 0 then NaN else if 0 < x then y else N_neg y)"
| "N_mul x (Finite y) = (if y = 0 then NaN else if 0 < y then x else N_neg x)"
| "N_mul PosInfinity y = y"
| "N_mul NegInfinity y = N_neg y"

fun N_div :: "Number \<Rightarrow> Number \<Rightarrow> Number" where
  "N_div (Finite x) (Finite y) =
     (if y = 0 then (if x = 0 then NaN else if 0 < x then PosInfinity else NegInfinity)
      else Finite (x / y))"
| "N_div NaN y = NaN"
| "N_div x NaN = NaN"
| "N_div (Finite x) y = Finite 0"
| "N_div x (Finite y) = (if 0 \<le> y then x else N_neg x)"
| "N_div x y = NaN"

fun N_rem :: "Number \<Rightarrow> Number \<Rightarrow> Number" where
  "N_rem (Finite x) (Finite y) = (if y = 0 then NaN else Finite (js_rem x y))"
| "N_rem (Finite x) PosInfinity = Finite x"
| "N_rem (Finite x) NegInfinity = Finite x"
| "N_rem x y = NaN"

fun Math_max_N :: "Number \<Rightarrow> Number \<Rightarrow> Number" where
  "Math_max_N (Finite x) (Finite y) = Finite (max x y)"
| "Math_max_N NaN y = NaN"
| "Math_max_N x NaN = NaN"
| "Math_max_N PosInfinity y = PosInfinity"
| "Math_max_N x PosInfinity = PosInfinity"
| "Math_max_N NegInfinity y = y"
| "Math_max_N x NegInfinity = x"

fun Math_min_N :: "Number \<Rightarrow> Number \<Rightarrow> Number" where
  "Math_min_N (Finite x) (Finite y) = Finite (min x y)"
| "Math_min_N NaN y = NaN"
| "Math_min_N x NaN = NaN"
| "Math_min_N NegInfinity y = NegInfinity"
| "Math_min_N x NegInfinity = NegInfinity"
| "Math_min_N PosInfinity y = y"
| "Math_min_N x PosInfinity = x"

fun Math_floor_N :: "Number \<Rightarrow> Number" where
  "Math_floor_N (Finite x) = Finite (of_int (Math_floor x))"
| "Math_floor_N x = x"

fun Math_round_N :: "Number \<Rightarrow> Number" where
  "Math_round_N (Finite x) = Finite (of_int (Math_round x))"
| "Math_round_N x = x"

text \<open>The object \<^verbatim>\<open>{r, g, b}\<close> that the conversion returns, its components Numbers.\<close>

record rgb_Number =
  r_N :: Number
  g_N :: Number
  b_N :: Number

definition hsbToRgb_Number :: "Number \<Rightarrow> Number \<Rightarrow> Number \<Rightarrow> rgb_Number" where
  \<comment> \<open>Lines 236 to 262 on every Number. When the \<^verbatim>\<open>switch\<close> matches no case,
      \<^verbatim>\<open>r, g, b\<close> stay undefined and each product with 255 is NaN.\<close>
  "hsbToRgb_Number h0 s0 v0 =
     (let h = N_rem (N_add (N_rem h0 (Finite 360)) (Finite 360)) (Finite 360);
          s = N_div (Math_max_N (Finite 0) (Math_min_N (Finite 100) s0)) (Finite 100);
          v = N_div (Math_max_N (Finite 0) (Math_min_N (Finite 100) v0)) (Finite 100);
          i = Math_floor_N (N_div h (Finite 60));
          f = N_sub (N_div h (Finite 60)) i;
          p = N_mul v (N_sub (Finite 1) s);
          q = N_mul v (N_sub (Finite 1) (N_mul s f));
          t = N_mul v (N_sub (Finite 1) (N_mul s (N_sub (Finite 1) f)));
          k = N_rem i (Finite 6);
          sel = (if k = Finite 0 then Some (v, t, p)
                 else if k = Finite 1 then Some (q, v, p)
                 else if k = Finite 2 then Some (p, v, t)
                 else if k = Finite 3 then Some (p, q, v)
                 else if k = Finite 4 then Some (t, p, v)
                 else if k = Finite 5 then Some (v, p, q)
                 else None)
      in case sel of
           None \<Rightarrow> \<lparr>r_N = NaN, g_N = NaN, b_N = NaN\<rparr>
         | Some (r', g', b') \<Rightarrow>
             \<lparr>r_N = Math_round_N (N_mul r' (Finite 255)),
              g_N = Math_round_N (N_mul g' (Finite 255)),
              b_N = Math_round_N (N_mul b' (Finite 255))\<rparr>)"

definition smooth_hsb :: "nat \<Rightarrow> nat \<Rightarrow> real \<Rightarrow> real \<times> real \<times> real" where
  \<comment> \<open>Lines 182 to 194: hue, saturation and brightness of an escaped pixel, from the
      iteration count \<open>it\<close> and the magnitude \<open>zn\<close>.\<close>
  "smooth_hsb n it zn =
     (let safeZn = max zn (1 / 10 ^ 10);
          nu = Math_log (Math_log safeZn / Math_LN2) / Math_LN2;
          smoothIter = real it + 1 - nu;
          hue = js_rem (smoothIter / real n * 1080) 360;
          saturation = 125;
          brightness = (if smoothIter < real n * (1 / 10)
                        then min 100 (smoothIter / real n * 1000)
                        else min 100 (30 + smoothIter / real n * 70));
          brightness' = (if real it > real n * (9 / 10)
                         then brightness * ((real n - real it) / (real n * (1 / 10)))
                         else brightness)
      in (hue, saturation, brightness'))"

definition rgba_bytes :: "rgb option \<Rightarrow> nat list" where
  \<comment> \<open>The four bytes stored for a colour; an undefined component is stored as 0.\<close>
  "rgba_bytes c =
     (case c of
        None \<Rightarrow> [0, 0, 0, 255]
      | Some c' \<Rightarrow> [toUint8Clamped (r c'), toUint8Clamped (g c'), toUint8Clamped (b c'), 255])"

definition shade :: "nat \<Rightarrow> real \<Rightarrow> real \<Rightarrow> nat list" where
  \<comment> \<open>Lines 160 to 201: the four bytes of the pixel at the point \<open>(cx, cy)\<close>.\<close>
  "shade n cx cy =
     (let s = mandel_loop cx cy n z_init
      in if iter s = n then [0, 0, 0, 255]
         else (let zn = sqrt (zx2 s + zy2 s)
               in case smooth_hsb n (iter s) zn of
                    (hue, saturation, brightness) \<Rightarrow> rgba_bytes (hsbToRgb hue saturation brightness)))"

subsection \<open>Filling the strip buffer\<close>

definition store_pixel :: "message \<Rightarrow> nat \<Rightarrow> nat \<Rightarrow> nat list \<Rightarrow> nat list" where
  \<comment> \<open>The body of the inner loop. A store outside a typed array is ignored, as a
      list update outside the list is.\<close>
  "store_pixel m y x px =
     (let rowOffset = (y - startYInTile m) * m_tileWidth m * 4;
          pixelIndex = rowOffset + x * 4;
          c = shade (maxIter m) (pixel_cx m x) (pixel_cy m y)
      in px[pixelIndex := c ! 0, pixelIndex + 1 := c ! 1, pixelIndex + 2 := c ! 2,
            pixelIndex + 3 := c ! 3])"

definition render_row :: "message \<Rightarrow> nat \<Rightarrow> nat list \<Rightarrow> nat list" where
  "render_row m y px = fold (store_pixel m y) [0..<m_tileWidth m] px"

definition worker_onmessage :: "message \<Rightarrow> js_error + reply" where
  \<comment> \<open>The worker's handler. A typed array of negative length cannot be made.\<close>
  "worker_onmessage m =
     (if endYInTile m < startYInTile m then Inl RangeError
      else (let rows = endYInTile m - startYInTile m;
                px0 = replicate (m_tileWidth m * rows * 4) 0;
                px = fold (render_row m) [startYInTile m..<endYInTile m] px0
            in Inr \<lparr>pixels = px, r_startYInTile = startYInTile m, r_endYInTile = endYInTile m\<rparr>))"

section \<open>The scheduler\<close>

definition tileStripHeight :: "config \<Rightarrow> tile \<Rightarrow> nat" where
  "tileStripHeight cfg t = nat (Math_ceil (real (tileHeight t) / real (WORKER_COUNT cfg)))"

definition strip_start :: "config \<Rightarrow> tile \<Rightarrow> nat \<Rightarrow> nat" where
  \<comment> \<open>\<^verbatim>\<open>startYInTile\<close> of the loop's round \<open>i\<close>.\<close>
  "strip_start cfg t i = i * tileStripHeight cfg t"

definition strip_end :: "config \<Rightarrow> tile \<Rightarrow> nat \<Rightarrow> nat" where
  \<comment> \<open>\<^verbatim>\<open>endYInTile\<close> of the loop's round \<open>i\<close>.\<close>
  "strip_end cfg t i = min (strip_start cfg t i + tileStripHeight cfg t) (tileHeight t)"

definition post_message :: "config \<Rightarrow> tile \<Rightarrow> nat \<Rightarrow> nat \<Rightarrow> message" where
  \<comment> \<open>The object of lines 79 to 94, for the rows from \<open>y0\<close> up to \<open>y1\<close>.\<close>
  "post_message cfg t y0 y1 =
     \<lparr>m_tileWidth = tileWidth t, m_tileHeight = tileHeight t,
      startYInTile = y0, endYInTile = y1,
      fullWidth = FULL_WIDTH cfg, fullHeight = FULL_HEIGHT cfg,
      tileOffsetX = tileX t, tileOffsetY = tileY t,
      maxIter = MAX_ITER cfg,
      m_cenX = cenX cfg, m_cenY = cenY cfg, m_zoom = zoom cfg,
      aspectRatio = ASPECT_RATIO cfg\<rparr>"

text \<open>
  A worker of the array \<^verbatim>\<open>workers\<close> is busy with the message it was posted, or stopped:
  terminated, failed, or idle for ever after its one reply.
\<close>

datatype worker = Busy message | Stopped

text \<open>
  The state the main thread keeps: the two globals, the canvas as its RGBA bytes, and
  two histories: \<open>drawn\<close>, the row ranges of the replies drawn so far (the lines
  logged), and \<open>saved\<close>, the canvas contents handed to \<^verbatim>\<open>saveCanvas\<close>.
\<close>

record sched =
  workers :: "worker list"
  completedWorkers :: nat
  canvas :: "nat list"
  drawn :: "(nat \<times> nat) list"
  saved :: "nat list list"

definition createCanvas :: "tile \<Rightarrow> sched" where
  \<comment> \<open>The state when \<^verbatim>\<open>setup\<close> calls the scheduler: a transparent black canvas of the
      tile's size.\<close>
  "createCanvas t =
     \<lparr>workers = [], completedWorkers = 0,
      canvas = replicate (tileWidth t * tileHeight t * 4) 0, drawn = [], saved = []\<rparr>"

definition dispatch :: "config \<Rightarrow> tile \<Rightarrow> nat \<Rightarrow> sched \<Rightarrow> sched" where
  \<comment> \<open>One round of the loop of lines 65 to 124.\<close>
  "dispatch cfg t i s =
     (let startY = strip_start cfg t i;
          endY = strip_end cfg t i
      in if startY \<ge> endY
         then s\<lparr>workers := workers s @ [Stopped], completedWorkers := completedWorkers s + 1\<rparr>
         else s\<lparr>workers := workers s @ [Busy (post_message cfg t startY endY)]\<rparr>)"

definition renderTileWithWorkers :: "config \<Rightarrow> tile \<Rightarrow> sched \<Rightarrow> sched" where
  "renderTileWithWorkers cfg t s =
     fold (dispatch cfg t) [0..<WORKER_COUNT cfg] (s\<lparr>workers := [], completedWorkers := 0\<rparr>)"

subsection \<open>Drawing a reply\<close>

record image_data =
  img_data :: "nat list"
  img_width :: nat
  img_height :: nat

definition new_ImageData :: "nat list \<Rightarrow> nat \<Rightarrow> nat \<Rightarrow> js_error + image_data" where
  \<comment> \<open>The constructor refuses data whose length is not that of \<open>sw\<close> by \<open>sh\<close> pixels.\<close>
  "new_ImageData d sw sh =
     (if length d = 0 \<or> length d mod 4 \<noteq> 0 then Inl InvalidStateError
      else if sw = 0 \<or> (length d div 4) mod sw \<noteq> 0 then Inl IndexSizeError
      else if (length d div 4) div sw \<noteq> sh then Inl IndexSizeError
      else Inr \<lparr>img_data = d, img_width = sw, img_height = sh\<rparr>)"

definition putImageData :: "nat list \<Rightarrow> nat \<Rightarrow> image_data \<Rightarrow> nat \<Rightarrow> nat \<Rightarrow> nat list" where
  \<comment> \<open>The canvas of width \<open>cw\<close> after the image is put at \<open>(dx, dy)\<close>: byte \<open>k\<close> belongs
      to the pixel in column \<open>k div 4 mod cw\<close> of row \<open>k div 4 div cw\<close>; the image's
      pixels replace those of the canvas they fall on.\<close>
  "putImageData cv cw img dx dy =
     map (\<lambda>k. let X = k div 4 mod cw; Y = k div 4 div cw
              in if dx \<le> X \<and> X < dx + img_width img \<and> dy \<le> Y \<and> Y < dy + img_height img
                 then img_data img ! (((Y - dy) * img_width img + (X - dx)) * 4 + k mod 4)
                 else cv ! k)
       [0..<length cv]"

definition onmessage :: "config \<Rightarrow> tile \<Rightarrow> reply \<Rightarrow> sched \<Rightarrow> js_error + sched" where
  \<comment> \<open>The handler of lines 96 to 119, up to the final \<^verbatim>\<open>worker.terminate()\<close>.\<close>
  "onmessage cfg t d s =
     (let rowCount = r_endYInTile d - r_startYInTile d
      in case new_ImageData (pixels d) (tileWidth t) rowCount of
           Inl e \<Rightarrow> Inl e
         | Inr imageData \<Rightarrow>
             (let s1 = s\<lparr>canvas := putImageData (canvas s) (tileWidth t) imageData 0 (r_startYInTile d)\<rparr>;
                  s2 = s1\<lparr>completedWorkers := completedWorkers s1 + 1,
                          drawn := drawn s1 @ [(r_startYInTile d, r_endYInTile d)]\<rparr>
              in Inr (if completedWorkers s2 = WORKER_COUNT cfg
                      then s2\<lparr>saved := saved s2 @ [canvas s2], workers := []\<rparr>
                      else s2)))"

definition deliver :: "config \<Rightarrow> tile \<Rightarrow> nat \<Rightarrow> sched \<Rightarrow> sched" where
  \<comment> \<open>The event "worker \<open>i\<close> finishes". A busy worker runs its handler on its message;
      if that fails, \<^verbatim>\<open>onerror\<close> only logs. Otherwise the main thread's handler runs on
      the reply and stops the worker; if the handler fails the worker stays idle.\<close>
  "deliver cfg t i s =
     (if i < length (workers s)
      then (case workers s ! i of
              Stopped \<Rightarrow> s
            | Busy m \<Rightarrow>
                (case worker_onmessage m of
                   Inl e \<Rightarrow> s\<lparr>workers := (workers s)[i := Stopped]\<rparr>
                 | Inr d \<Rightarrow>
                     (case onmessage cfg t d s of
                        Inl e \<Rightarrow> s\<lparr>workers := (workers s)[i := Stopped]\<rparr>
                      | Inr s' \<Rightarrow> s'\<lparr>workers := (workers s')[i := Stopped]\<rparr>)))
      else s)"

definition crash :: "nat \<Rightarrow> sched \<Rightarrow> sched" where
  \<comment> \<open>The event "worker \<open>i\<close> fails": \<^verbatim>\<open>onerror\<close> only logs, and the worker posts
      nothing any more.\<close>
  "crash i s = s\<lparr>workers := (workers s)[i := Stopped]\<rparr>"

datatype event = Finish nat | Crash nat

fun step :: "config \<Rightarrow> tile \<Rightarrow> event \<Rightarrow> sched \<Rightarrow> sched" where
  "step cfg t (Finish i) s = deliver cfg t i s"
| "step cfg t (Crash i) s = crash i s"

definition run :: "config \<Rightarrow> tile \<Rightarrow> event list \<Rightarrow> sched" where
  \<comment> \<open>An execution: the scheduler's loop, then the events \<open>evs\<close> in their order. The
      main thread handles one event at a time.\<close>
  "run cfg t evs = fold (step cfg t) evs (renderTileWithWorkers cfg t (createCanvas t))"

definition render_sequential :: "config \<Rightarrow> tile \<Rightarrow> nat list" where
  \<comment> \<open>The whole tile rendered by one pass of the worker's loop over rows \<open>0\<close> to
      \<open>tileHeight\<close>.\<close>
  "render_sequential cfg t =
     (case worker_onmessage (post_message cfg t 0 (tileHeight t)) of
        Inl e \<Rightarrow> []
      | Inr d \<Rightarrow> pixels d)"

section \<open>Auxiliary notions of the proofs, and the configurations of the examples\<close>

definition cell_lo :: "nat \<Rightarrow> nat \<Rightarrow> nat \<Rightarrow> nat" where
  \<comment> \<open>One axis of the grid: \<open>n\<close> cells of size \<open>L div n\<close>, the last one taking
      the remainder. Cell \<open>c\<close> starts here.\<close>
  "cell_lo L n c = c * (L div n)"

definition cell_len :: "nat \<Rightarrow> nat \<Rightarrow> nat \<Rightarrow> nat" where
  \<comment> \<open>The size of cell \<open>c\<close>.\<close>
  "cell_len L n c = (if int c = int n - 1 then L div n + (L - L div n * n) else L div n)"

definition in_cell :: "nat \<Rightarrow> nat \<Rightarrow> nat \<Rightarrow> nat \<Rightarrow> bool" where
  \<comment> \<open>Position \<open>p\<close> lies in cell \<open>c\<close>.\<close>
  "in_cell L n c p \<longleftrightarrow> cell_lo L n c \<le> p \<and> p < cell_lo L n c + cell_len L n c"

definition cW :: config where
  \<comment> \<open>A full image of 10 by 7 pixels cut into 2 rows and 3 columns.\<close>
  "cW = \<lparr>MAX_ITER = 4500, ESCAPE_RADIUS = 4, WORKER_COUNT = 4, FULL_WIDTH = 10, FULL_HEIGHT = 7,
          ROWS = 2, COLS = 3, ROW = 1, COL = 2, cenX = - 1, cenY = 0, zoom = 1\<rparr>"

definition strip_empty :: "config \<Rightarrow> tile \<Rightarrow> nat \<Rightarrow> bool" where
  \<comment> \<open>The test of line 73: round \<open>i\<close> has no row.\<close>
  "strip_empty cfg t i \<longleftrightarrow> strip_start cfg t i \<ge> strip_end cfg t i"

definition strip_worker :: "config \<Rightarrow> tile \<Rightarrow> nat \<Rightarrow> worker" where
  \<comment> \<open>The worker that round \<open>i\<close> of the loop leaves in the array.\<close>
  "strip_worker cfg t i =
     (if strip_empty cfg t i then Stopped
      else Busy (post_message cfg t (strip_start cfg t i) (strip_end cfg t i)))"

definition c5 :: config where
  \<comment> \<open>One tile of 2 by 5 pixels and four workers.\<close>
  "c5 = \<lparr>MAX_ITER = 1, ESCAPE_RADIUS = 4, WORKER_COUNT = 4, FULL_WIDTH = 2, FULL_HEIGHT = 5,
          ROWS = 1, COLS = 1, ROW = 0, COL = 0, cenX = 0, cenY = 0, zoom = 1\<rparr>"

definition t5 :: tile where
  \<comment> \<open>The tile that \<open>setup_tile\<close> gives for \<open>c5\<close>.\<close>
  "t5 = \<lparr>tileX = 0, tileY = 0, tileWidth = 2, tileHeight = 5\<rparr>"

definition strip_range :: "config \<Rightarrow> tile \<Rightarrow> nat \<Rightarrow> nat \<times> nat" where
  \<comment> \<open>The row range of round \<open>i\<close>, as a reply reports it.\<close>
  "strip_range cfg t i = (strip_start cfg t i, strip_end cfg t i)"

definition dispatched :: "config \<Rightarrow> tile \<Rightarrow> nat list" where
  \<comment> \<open>The rounds that post a message.\<close>
  "dispatched cfg t = filter (\<lambda>i. \<not> strip_empty cfg t i) [0..<WORKER_COUNT cfg]"

definition skipped :: "config \<Rightarrow> tile \<Rightarrow> nat list" where
  \<comment> \<open>The rounds that post nothing.\<close>
  "skipped cfg t = filter (strip_empty cfg t) [0..<WORKER_COUNT cfg]"

definition sched_inv :: "config \<Rightarrow> tile \<Rightarrow> sched \<Rightarrow> bool" where
  \<comment> \<open>What holds of every state of every execution: the canvas keeps its size; the
      counter is the skipped rounds plus the replies drawn; no reply is drawn twice and
      each comes from a posted strip; a busy worker holds the message of its round and
      has not been drawn; the rows of a drawn strip are those of the sequential render;
      and a save leaves no worker, the counter at \<open>WORKER_COUNT\<close> and the canvas saved.\<close>
  "sched_inv cfg t s \<longleftrightarrow>
     length (canvas s) = tileWidth t * tileHeight t * 4 \<and>
     completedWorkers s = length (skipped cfg t) + length (drawn s) \<and>
     distinct (drawn s) \<and>
     set (drawn s) \<subseteq> strip_range cfg t ` set (dispatched cfg t) \<and>
     (\<forall>i<length (workers s). workers s ! i = Stopped \<or>
        (i \<in> set (dispatched cfg t) \<and> workers s ! i = strip_worker cfg t i \<and>
         strip_range cfg t i \<notin> set (drawn s))) \<and>
     (\<forall>p\<in>set (drawn s). \<forall>k. fst p * tileWidth t * 4 \<le> k \<and> k < snd p * tileWidth t * 4 \<longrightarrow>
        canvas s ! k = render_sequential cfg t ! k) \<and>
     (saved s \<noteq> [] \<longrightarrow> workers s = [] \<and> completedWorkers s = WORKER_COUNT cfg \<and>
        saved s = [canvas s])"

definition sched_live :: "config \<Rightarrow> tile \<Rightarrow> sched \<Rightarrow> bool" where
  \<comment> \<open>What holds while no worker fails: a posted strip is drawn or its worker is
      still busy with it, and the counter reaching \<open>WORKER_COUNT\<close> by a reply has
      saved the canvas.\<close>
  "sched_live cfg t s \<longleftrightarrow>
     (\<forall>i\<in>set (dispatched cfg t). strip_range cfg t i \<in> set (drawn s) \<or>
        (i < length (workers s) \<and> workers s ! i = strip_worker cfg t i)) \<and>
     (completedWorkers s = WORKER_COUNT cfg \<and> drawn s \<noteq> [] \<longrightarrow> saved s \<noteq> [])"

definition mA :: message where
  \<comment> \<open>Rows 0 to 800 of the tile at row 1, column 1 of the 4 by 4 grid of the sketch.\<close>
  "mA = \<lparr>m_tileWidth = 14000, m_tileHeight = 8000, startYInTile = 0, endYInTile = 800,
         fullWidth = 56000, fullHeight = 32000, tileOffsetX = 14000, tileOffsetY = 8000,
         maxIter = 4500, m_cenX = - 1, m_cenY = 0, m_zoom = 1, aspectRatio = 7 / 4\<rparr>"

definition mB :: message where
  \<comment> \<open>Rows 8000 to 9000 of the tile at row 0, column 0 of a 2 by 2 grid of the same
      image.\<close>
  "mB = \<lparr>m_tileWidth = 28000, m_tileHeight = 16000, startYInTile = 8000, endYInTile = 9000,
         fullWidth = 56000, fullHeight = 32000, tileOffsetX = 0, tileOffsetY = 0,
         maxIter = 4500, m_cenX = - 1, m_cenY = 0, m_zoom = 1, aspectRatio = 7 / 4\<rparr>"

definition floor_mod360 :: "real \<Rightarrow> real" where
  \<comment> \<open>The non-negative remainder modulo 360.\<close>
  "floor_mod360 x = x - 360 * of_int \<lfloor>x / 360\<rfloor>"

definition hsb_sectors :: "real \<Rightarrow> real \<Rightarrow> real \<Rightarrow> rgb option" where
  \<comment> \<open>The part of \<open>hsbToRgb\<close> after its first three assignments.\<close>
  "hsb_sectors h s v =
     (let i = Math_floor (h / 60);
          f = h / 60 - of_int i;
          p = v * (1 - s);
          q = v * (1 - s * f);
          t = v * (1 - s * (1 - f));
          k = js_rem (of_int i) 6;
          sel = (if k = 0 then Some (v, t, p)
                 else if k = 1 then Some (q, v, p)
                 else if k = 2 then Some (p, v, t)
                 else if k = 3 then Some (p, q, v)
                 else if k = 4 then Some (t, p, v)
                 else if k = 5 then Some (v, p, q)
                 else None)
      in case sel of
           None \<Rightarrow> None
         | Some (r', g', b') \<Rightarrow>
             Some \<lparr>r = Math_round (r' * 255), g = Math_round (g' * 255), b = Math_round (b' * 255)\<rparr>)"

definition spec_smoothIter :: "nat \<Rightarrow> real \<Rightarrow> real" where
  \<comment> \<open>The claim's formula for \<open>smoothIter\<close>.\<close>
  "spec_smoothIter it zn = real it + 1 - ln (ln (max zn (1 / 10 ^ 10)) / ln 2) / ln 2"

definition spec_hue :: "nat \<Rightarrow> nat \<Rightarrow> real \<Rightarrow> real" where
  \<comment> \<open>The claim's formula for the hue, its \<open>mod\<close> read as the remainder operator of the
      source.\<close>
  "spec_hue n it zn = js_rem (spec_smoothIter it zn / real n * 1080) 360"

definition spec_brightness :: "nat \<Rightarrow> nat \<Rightarrow> real \<Rightarrow> real" where
  \<comment> \<open>The claim's formula for the brightness, the taper near the cap included.\<close>
  "spec_brightness n it zn =
     (if real it > real n * (9 / 10)
      then (if spec_smoothIter it zn < real n * (1 / 10)
            then min 100 (spec_smoothIter it zn / real n * 1000)
            else min 100 (30 + spec_smoothIter it zn / real n * 70))
           * ((real n - real it) / (real n * (1 / 10)))
      else (if spec_smoothIter it zn < real n * (1 / 10)
            then min 100 (spec_smoothIter it zn / real n * 1000)
            else min 100 (30 + spec_smoothIter it zn / real n * 70)))"

definition is_byte :: "Number \<Rightarrow> bool" where
  \<comment> \<open>A Number that is an integer from 0 to 255.\<close>
  "is_byte x =
     (case x of Finite y \<Rightarrow> 0 \<le> y \<and> y \<le> 255 \<and> y = of_int \<lfloor>y\<rfloor> | _ \<Rightarrow> False)"

definition mS :: message where
  \<comment> \<open>A tile of one pixel.\<close>
  "mS = \<lparr>m_tileWidth = 1, m_tileHeight = 1, startYInTile = 0, endYInTile = 1,
         fullWidth = 1, fullHeight = 1, tileOffsetX = 0, tileOffsetY = 0,
         maxIter = 1, m_cenX = 0, m_cenY = 0, m_zoom = 1, aspectRatio = 1\<rparr>"

section \<open>Tile geometry: the tiles partition the full image\<close>

lemma WORKER_COUNT_of_positive: "0 < WORKER_COUNT_of hardwareConcurrency"
  by (simp add: WORKER_COUNT_of_def split: option.split)

lemma floor_div_nat: "nat (Math_floor (real x / real y)) = x div y"
  by (simp add: Math_floor_def floor_divide_of_nat_eq)

lemma tile_at_tileX: "tileX (tile_at cfg row col) = col * (FULL_WIDTH cfg div COLS cfg)"
  by (simp add: tile_at_def setup_tile_def Let_def floor_div_nat)

lemma tile_at_tileY: "tileY (tile_at cfg row col) = row * (FULL_HEIGHT cfg div ROWS cfg)"
  by (simp add: tile_at_def setup_tile_def Let_def floor_div_nat)

lemma tile_at_tileWidth:
  "tileWidth (tile_at cfg row col) =
     (if int col = int (COLS cfg) - 1
      then FULL_WIDTH cfg div COLS cfg + (FULL_WIDTH cfg - FULL_WIDTH cfg div COLS cfg * COLS cfg)
      else FULL_WIDTH cfg div COLS cfg)"
  by (simp add: tile_at_def setup_tile_def Let_def floor_div_nat)

lemma tile_at_tileHeight:
  "tileHeight (tile_at cfg row col) =
     (if int row = int (ROWS cfg) - 1
      then FULL_HEIGHT cfg div ROWS cfg + (FULL_HEIGHT cfg - FULL_HEIGHT cfg div ROWS cfg * ROWS cfg)
      else FULL_HEIGHT cfg div ROWS cfg)"
  by (simp add: tile_at_def setup_tile_def Let_def floor_div_nat)

lemma cell_last:
  assumes n: "0 < n"
  shows "cell_lo L n (n - 1) + cell_len L n (n - 1) = L"
proof -
  obtain k where k: "n = Suc k" using n by (cases n) auto
  define w where "w = L div n"
  have le: "w * Suc k \<le> L" unfolding w_def k by (rule div_times_less_eq_dividend)
  have "k * w + (w + (L - w * Suc k)) = L" using le by simp
  then show ?thesis by (simp add: cell_lo_def cell_len_def k w_def)
qed

lemma cell_inner: "c + 1 < n \<Longrightarrow> cell_lo L n c + cell_len L n c = cell_lo L n (c + 1)"
  by (simp add: cell_lo_def cell_len_def)

lemma cell_lo_mono: "c \<le> c' \<Longrightarrow> cell_lo L n c \<le> cell_lo L n c'"
  by (simp add: cell_lo_def)

lemma cell_hi_le: 
  assumes "c < n" shows "cell_lo L n c + cell_len L n c \<le> L"
proof (cases "c + 1 < n")
  case True
  then have "cell_lo L n c + cell_len L n c = cell_lo L n (c + 1)" by (rule cell_inner)
  also have "\<dots> \<le> cell_lo L n (n - 1)" using True by (intro cell_lo_mono) simp
  also have "\<dots> \<le> L" using cell_last[of n L] assms by simp
  finally show ?thesis .
next
  case False
  then have "c = n - 1" using assms by simp
  then show ?thesis using cell_last[of n L] assms by simp
qed

lemma in_cell_unique:
  assumes "c < n" "c' < n" "in_cell L n c p" "in_cell L n c' p"
  shows "c = c'"
proof -
  have *: False if "a < b" "b < n" "in_cell L n a p" "in_cell L n b p" for a b
  proof -
    have "a + 1 < n" using that by simp
    then have "cell_lo L n a + cell_len L n a = cell_lo L n (a + 1)" by (rule cell_inner)
    also have "\<dots> \<le> cell_lo L n b" using that by (intro cell_lo_mono) simp
    finally show False using that by (simp add: in_cell_def)
  qed
  show ?thesis using *[of c c'] *[of c' c] assms by (cases c c' rule: linorder_cases) auto
qed

lemma in_cell_exists:
  assumes n: "0 < n" and p: "p < L"
  shows "\<exists>c<n. in_cell L n c p"
proof (cases "L div n = 0 \<or> n - 1 \<le> p div (L div n)")
  case True
  have "cell_lo L n (n - 1) \<le> p"
  proof (cases "L div n = 0")
    case True then show ?thesis by (simp add: cell_lo_def)
  next
    case False
    with True have "n - 1 \<le> p div (L div n)" by simp
    then have "(n - 1) * (L div n) \<le> p div (L div n) * (L div n)" by (rule mult_le_mono1)
    also have "\<dots> \<le> p" by simp
    finally show ?thesis by (simp add: cell_lo_def)
  qed
  then have "in_cell L n (n - 1) p"
    using cell_last[OF n, of L] p by (simp add: in_cell_def)
  then show ?thesis using n by (intro exI[of _ "n - 1"]) simp
next
  case False
  then have w: "0 < L div n" and c: "p div (L div n) + 1 < n" by auto
  have "int (p div (L div n)) \<noteq> int n - 1" using c by linarith
  moreover have "p div (L div n) * (L div n) \<le> p" by simp
  moreover have "p < p div (L div n) * (L div n) + L div n"
    using w by (metis add.commute dividend_less_div_times mult.commute)
  ultimately have "in_cell L n (p div (L div n)) p"
    by (simp add: in_cell_def cell_lo_def cell_len_def)
  then show ?thesis using c by (intro exI[of _ "p div (L div n)"]) simp
qed

lemma cell_len_sum:
  assumes n: "0 < n" shows "(\<Sum>c<n. cell_len L n c) = L"
proof -
  obtain k where k: "n = Suc k" using n by (cases n) auto
  have "(\<Sum>c<k. cell_len L n c) = (\<Sum>c<k. L div n)"
    by (rule sum.cong) (auto simp: cell_len_def k)
  then have "(\<Sum>c<n. cell_len L n c) = k * (L div n) + cell_len L n k"
    by (simp add: k)
  also have "\<dots> = cell_lo L n (n - 1) + cell_len L n (n - 1)" by (simp add: k cell_lo_def)
  also have "\<dots> = L" by (rule cell_last[OF n])
  finally show ?thesis .
qed

lemma in_tile_cells:
  "in_tile (tile_at cfg row col) px py \<longleftrightarrow>
     in_cell (FULL_WIDTH cfg) (COLS cfg) col px \<and> in_cell (FULL_HEIGHT cfg) (ROWS cfg) row py"
  by (simp add: in_tile_def in_cell_def cell_lo_def cell_len_def tile_at_tileX tile_at_tileY
      tile_at_tileWidth tile_at_tileHeight)

lemma tile_area_cells:
  "tileWidth (tile_at cfg row col) * tileHeight (tile_at cfg row col) =
     cell_len (FULL_WIDTH cfg) (COLS cfg) col * cell_len (FULL_HEIGHT cfg) (ROWS cfg) row"
  by (simp add: cell_len_def tile_at_tileWidth tile_at_tileHeight)

text \<open>
  Claim C3 (partition completeness). For positive \<open>FULL_WIDTH\<close>, \<open>FULL_HEIGHT\<close>, \<open>ROWS\<close>
  and \<open>COLS\<close>, the tiles that \<^verbatim>\<open>setup\<close> computes for the grid positions have the
  stated geometry (width \<open>floor(FULL_WIDTH / COLS)\<close>, the last column taking the
  remainder, and likewise for rows; offsets \<open>COL\<close> and \<open>ROW\<close> times the floors); every
  pixel of the full image lies in some tile, no pixel lies in two tiles, every tile
  lies inside the full image, and the tiles' pixel counts add up to
  \<open>FULL_WIDTH * FULL_HEIGHT\<close>.
\<close>

theorem tile_partition:
  assumes "0 < FULL_WIDTH cfg" and "0 < FULL_HEIGHT cfg" and "0 < ROWS cfg" and "0 < COLS cfg"
  shows "(\<forall>row col. tile_at cfg row col =
            \<lparr>tileX = col * nat \<lfloor>real (FULL_WIDTH cfg) / real (COLS cfg)\<rfloor>,
             tileY = row * nat \<lfloor>real (FULL_HEIGHT cfg) / real (ROWS cfg)\<rfloor>,
             tileWidth = nat \<lfloor>real (FULL_WIDTH cfg) / real (COLS cfg)\<rfloor> +
               (if col = COLS cfg - 1
                then FULL_WIDTH cfg - nat \<lfloor>real (FULL_WIDTH cfg) / real (COLS cfg)\<rfloor> * COLS cfg
                else 0),
             tileHeight = nat \<lfloor>real (FULL_HEIGHT cfg) / real (ROWS cfg)\<rfloor> +
               (if row = ROWS cfg - 1
                then FULL_HEIGHT cfg - nat \<lfloor>real (FULL_HEIGHT cfg) / real (ROWS cfg)\<rfloor> * ROWS cfg
                else 0)\<rparr>)
       \<and> (\<forall>px py. px < FULL_WIDTH cfg \<and> py < FULL_HEIGHT cfg \<longrightarrow>
            (\<exists>row col. row < ROWS cfg \<and> col < COLS cfg \<and> in_tile (tile_at cfg row col) px py))
       \<and> (\<forall>row col row' col' px py.
            row < ROWS cfg \<and> col < COLS cfg \<and> row' < ROWS cfg \<and> col' < COLS cfg \<and>
            in_tile (tile_at cfg row col) px py \<and> in_tile (tile_at cfg row' col') px py \<longrightarrow>
            row = row' \<and> col = col')
       \<and> (\<forall>row col px py.
            row < ROWS cfg \<and> col < COLS cfg \<and> in_tile (tile_at cfg row col) px py \<longrightarrow>
            px < FULL_WIDTH cfg \<and> py < FULL_HEIGHT cfg)
       \<and> (\<Sum>row<ROWS cfg. \<Sum>col<COLS cfg.
            tileWidth (tile_at cfg row col) * tileHeight (tile_at cfg row col)) =
          FULL_WIDTH cfg * FULL_HEIGHT cfg"
proof (intro conjI allI impI)
  fix row col
  have "int col = int (COLS cfg) - 1 \<longleftrightarrow> col = COLS cfg - 1"
    using assms(4) by linarith
  moreover have "int row = int (ROWS cfg) - 1 \<longleftrightarrow> row = ROWS cfg - 1"
    using assms(3) by linarith
  ultimately show "tile_at cfg row col =
            \<lparr>tileX = col * nat \<lfloor>real (FULL_WIDTH cfg) / real (COLS cfg)\<rfloor>,
             tileY = row * nat \<lfloor>real (FULL_HEIGHT cfg) / real (ROWS cfg)\<rfloor>,
             tileWidth = nat \<lfloor>real (FULL_WIDTH cfg) / real (COLS cfg)\<rfloor> +
               (if col = COLS cfg - 1
                then FULL_WIDTH cfg - nat \<lfloor>real (FULL_WIDTH cfg) / real (COLS cfg)\<rfloor> * COLS cfg
                else 0),
             tileHeight = nat \<lfloor>real (FULL_HEIGHT cfg) / real (ROWS cfg)\<rfloor> +
               (if row = ROWS cfg - 1
                then FULL_HEIGHT cfg - nat \<lfloor>real (FULL_HEIGHT cfg) / real (ROWS cfg)\<rfloor> * ROWS cfg
                else 0)\<rparr>"
    by (simp add: tile_at_def setup_tile_def Let_def Math_floor_def)
next
  fix px py assume "px < FULL_WIDTH cfg \<and> py < FULL_HEIGHT cfg"
  then obtain col row where "col < COLS cfg" "in_cell (FULL_WIDTH cfg) (COLS cfg) col px"
    "row < ROWS cfg" "in_cell (FULL_HEIGHT cfg) (ROWS cfg) row py"
    using in_cell_exists[OF assms(4), of px "FULL_WIDTH cfg"]
      in_cell_exists[OF assms(3), of py "FULL_HEIGHT cfg"] by blast
  then show "\<exists>row col. row < ROWS cfg \<and> col < COLS cfg \<and> in_tile (tile_at cfg row col) px py"
    unfolding in_tile_cells by blast
next
  fix row col row' col' px py
  assume a: "row < ROWS cfg \<and> col < COLS cfg \<and> row' < ROWS cfg \<and> col' < COLS cfg \<and>
            in_tile (tile_at cfg row col) px py \<and> in_tile (tile_at cfg row' col') px py"
  show "row = row'" using a unfolding in_tile_cells by (blast intro: in_cell_unique)
  show "col = col'" using a unfolding in_tile_cells by (blast intro: in_cell_unique)
next
  fix row col px py
  assume a: "row < ROWS cfg \<and> col < COLS cfg \<and> in_tile (tile_at cfg row col) px py"
  show "px < FULL_WIDTH cfg"
    using a cell_hi_le[of col "COLS cfg" "FULL_WIDTH cfg"] unfolding in_tile_cells in_cell_def by linarith
  show "py < FULL_HEIGHT cfg"
    using a cell_hi_le[of row "ROWS cfg" "FULL_HEIGHT cfg"] unfolding in_tile_cells in_cell_def by linarith
next
  have "(\<Sum>row<ROWS cfg. \<Sum>col<COLS cfg.
            tileWidth (tile_at cfg row col) * tileHeight (tile_at cfg row col)) =
        (\<Sum>row<ROWS cfg. \<Sum>col<COLS cfg.
            cell_len (FULL_WIDTH cfg) (COLS cfg) col * cell_len (FULL_HEIGHT cfg) (ROWS cfg) row)"
    by (simp only: tile_area_cells)
  also have "\<dots> = (\<Sum>row<ROWS cfg. FULL_WIDTH cfg * cell_len (FULL_HEIGHT cfg) (ROWS cfg) row)"
    by (simp only: sum_distrib_right[symmetric] cell_len_sum[OF assms(4)])
  also have "\<dots> = FULL_WIDTH cfg * FULL_HEIGHT cfg"
    by (simp only: sum_distrib_left[symmetric] cell_len_sum[OF assms(3)])
  finally show "(\<Sum>row<ROWS cfg. \<Sum>col<COLS cfg.
            tileWidth (tile_at cfg row col) * tileHeight (tile_at cfg row col)) =
          FULL_WIDTH cfg * FULL_HEIGHT cfg" .
qed

theorem tile_partition_witness:
  "0 < FULL_WIDTH cW \<and> 0 < FULL_HEIGHT cW \<and> 0 < ROWS cW \<and> 0 < COLS cW \<and>
   tileX (tile_at cW 1 2) = 6 \<and> tileWidth (tile_at cW 1 2) = 4 \<and>
   (\<exists>row col. row < ROWS cW \<and> col < COLS cW \<and> in_tile (tile_at cW row col) 9 6) \<and>
   (\<Sum>row<ROWS cW. \<Sum>col<COLS cW.
      tileWidth (tile_at cW row col) * tileHeight (tile_at cW row col)) = 70"
proof -
  have h: "0 < FULL_WIDTH cW" "0 < FULL_HEIGHT cW" "0 < ROWS cW" "0 < COLS cW"
    by (simp_all add: cW_def)
  note T = tile_partition[OF h]
  note T1 = T[THEN conjunct1, THEN spec, THEN spec, of 1 2]
  note T2 = T[THEN conjunct2, THEN conjunct1, THEN spec, THEN spec, of 9 6]
  note T5 = T[THEN conjunct2, THEN conjunct2, THEN conjunct2, THEN conjunct2]
  have fl: "nat \<lfloor>real (FULL_WIDTH cW) / real (COLS cW)\<rfloor> = 3" by (simp add: cW_def)
  have "tileX (tile_at cW 1 2) = 6" by (subst T1) (simp add: fl)
  moreover have "tileWidth (tile_at cW 1 2) = 4" by (subst T1) (simp add: fl, simp add: cW_def)
  moreover have "\<exists>row col. row < ROWS cW \<and> col < COLS cW \<and> in_tile (tile_at cW row col) 9 6"
  proof -
    have "9 < FULL_WIDTH cW \<and> 6 < FULL_HEIGHT cW" by (simp add: cW_def)
    then show ?thesis using T2 by blast
  qed
  moreover have "(\<Sum>row<ROWS cW. \<Sum>col<COLS cW.
      tileWidth (tile_at cW row col) * tileHeight (tile_at cW row col)) = 70"
  proof -
    have "FULL_WIDTH cW * FULL_HEIGHT cW = 70" by (simp add: cW_def)
    with T5 show ?thesis by (rule trans)
  qed
  ultimately show ?thesis using h by blast
qed

section \<open>The strips of a tile\<close>

lemma strip_height_bounds:
  assumes W: "0 < WORKER_COUNT cfg"
  shows "tileHeight t \<le> tileStripHeight cfg t * WORKER_COUNT cfg"
    and "0 < tileHeight t \<Longrightarrow> 0 < tileStripHeight cfg t"
proof -
  let ?q = "real (tileHeight t) / real (WORKER_COUNT cfg)"
  have q0: "0 \<le> ?q" by simp
  then have "0 \<le> (of_int \<lceil>?q\<rceil> :: real)" using le_of_int_ceiling[of ?q] by linarith
  then have c0: "0 \<le> \<lceil>?q\<rceil>" by (simp only: of_int_0_le_iff)
  have "?q \<le> of_int \<lceil>?q\<rceil>" by (rule le_of_int_ceiling)
  also have "\<dots> = real (tileStripHeight cfg t)"
    using c0 by (simp add: tileStripHeight_def Math_ceil_def)
  finally have "?q * real (WORKER_COUNT cfg) \<le> real (tileStripHeight cfg t) * real (WORKER_COUNT cfg)"
    by (rule mult_right_mono) simp
  then have "real (tileHeight t) \<le> real (tileStripHeight cfg t * WORKER_COUNT cfg)"
    using W by simp
  then show le: "tileHeight t \<le> tileStripHeight cfg t * WORKER_COUNT cfg"
    by (simp only: of_nat_le_iff)
  show "0 < tileStripHeight cfg t" if "0 < tileHeight t"
    using le that by (cases "tileStripHeight cfg t") simp_all
qed

lemma strip_cover:
  assumes W: "0 < WORKER_COUNT cfg" and y: "y < tileHeight t"
  shows "\<exists>i<WORKER_COUNT cfg. strip_start cfg t i \<le> y \<and> y < strip_end cfg t i"
proof -
  let ?S = "tileStripHeight cfg t"
  have S: "0 < ?S" using strip_height_bounds(2)[OF W, of t] y by simp
  have "y < ?S * WORKER_COUNT cfg" using strip_height_bounds(1)[OF W, of t] y by simp
  then have i: "y div ?S < WORKER_COUNT cfg"
    using S by (simp add: less_mult_imp_div_less mult.commute)
  have "y div ?S * ?S \<le> y" by simp
  moreover have "y < y div ?S * ?S + ?S"
    using S by (metis add.commute dividend_less_div_times mult.commute)
  ultimately have "strip_start cfg t (y div ?S) \<le> y \<and> y < strip_end cfg t (y div ?S)"
    using y by (simp add: strip_start_def strip_end_def)
  with i show ?thesis by blast
qed

lemma strip_end_le_next: "i < j \<Longrightarrow> strip_end cfg t i \<le> strip_start cfg t j"
proof -
  assume "i < j"
  then have "Suc i * tileStripHeight cfg t \<le> j * tileStripHeight cfg t"
    by (intro mult_le_mono1) simp
  then show ?thesis by (simp add: strip_start_def strip_end_def)
qed

lemma strip_disjoint:
  assumes "strip_start cfg t i \<le> y" "y < strip_end cfg t i"
    and "strip_start cfg t j \<le> y" "y < strip_end cfg t j"
  shows "i = j"
  using assms strip_end_le_next[of i j cfg t] strip_end_le_next[of j i cfg t]
  by (cases i j rule: linorder_cases) auto

lemma strip_short_last:
  assumes "strip_end cfg t i - strip_start cfg t i < tileStripHeight cfg t" and "i < j"
  shows "strip_empty cfg t j"
proof -
  have "strip_end cfg t i = tileHeight t"
    using assms(1) by (simp add: strip_end_def strip_start_def min_def split: if_splits)
  moreover have "strip_end cfg t j \<le> tileHeight t" by (simp add: strip_end_def)
  moreover have "strip_end cfg t i \<le> strip_start cfg t j" using assms(2) by (rule strip_end_le_next)
  ultimately show ?thesis by (simp add: strip_empty_def)
qed

lemma fold_dispatch:
  "fold (dispatch cfg t) [0..<n] s =
     s\<lparr>workers := workers s @ map (strip_worker cfg t) [0..<n],
       completedWorkers := completedWorkers s + length (filter (strip_empty cfg t) [0..<n])\<rparr>"
  by (induction n) (simp_all add: dispatch_def strip_worker_def strip_empty_def Let_def)

lemma renderTileWithWorkers_eq:
  "renderTileWithWorkers cfg t s =
     s\<lparr>workers := map (strip_worker cfg t) [0..<WORKER_COUNT cfg],
       completedWorkers := length (filter (strip_empty cfg t) [0..<WORKER_COUNT cfg])\<rparr>"
  by (simp add: renderTileWithWorkers_def fold_dispatch)

lemma t5_setup: "setup_tile c5 = t5"
  by (simp add: setup_tile_def c5_def t5_def Math_floor_def)

lemma S5: "tileStripHeight c5 t5 = 2"
  by (simp add: tileStripHeight_def c5_def t5_def Math_ceil_def)

text \<open>
  Claim C5 (strip partition), as amended. For a tile of height at least 1 and at least
  one worker, round \<open>i\<close> of the scheduler's loop has the rows from
  \<open>i * ceil(H / W)\<close> up to \<open>min((i + 1) * ceil(H / W), H)\<close>; the strips start at row 0,
  each ends where the next starts (or at \<open>H\<close>), the last ends at \<open>H\<close>; every row of
  the tile lies in exactly one strip and no strip leaves the tile; a strip with fewer
  than \<open>ceil(H / W)\<close> rows is followed by empty strips only; and the loop posts a
  message for exactly the strips with a row and counts every other strip as completed
  at once. A strip that is short or empty need not be the last one: see the
  counterexample.
\<close>

theorem strip_partition:
  assumes H: "0 < tileHeight t" and W: "0 < WORKER_COUNT cfg"
  shows "(\<forall>i. strip_start cfg t i = i * nat \<lceil>real (tileHeight t) / real (WORKER_COUNT cfg)\<rceil> \<and>
              strip_end cfg t i =
                min ((i + 1) * nat \<lceil>real (tileHeight t) / real (WORKER_COUNT cfg)\<rceil>) (tileHeight t))
       \<and> strip_start cfg t 0 = 0
       \<and> (\<forall>i. strip_end cfg t i = min (strip_start cfg t (i + 1)) (tileHeight t))
       \<and> strip_end cfg t (WORKER_COUNT cfg - 1) = tileHeight t
       \<and> (\<forall>y. y < tileHeight t \<longrightarrow>
            (\<exists>i<WORKER_COUNT cfg. strip_start cfg t i \<le> y \<and> y < strip_end cfg t i))
       \<and> (\<forall>i j y. strip_start cfg t i \<le> y \<and> y < strip_end cfg t i \<and>
                  strip_start cfg t j \<le> y \<and> y < strip_end cfg t j \<longrightarrow> i = j)
       \<and> (\<forall>i y. strip_start cfg t i \<le> y \<and> y < strip_end cfg t i \<longrightarrow> y < tileHeight t)
       \<and> (\<forall>i j. strip_end cfg t i - strip_start cfg t i < tileStripHeight cfg t \<and> i < j \<longrightarrow>
                strip_start cfg t j \<ge> strip_end cfg t j)
       \<and> workers (renderTileWithWorkers cfg t s) =
           map (\<lambda>i. if strip_start cfg t i \<ge> strip_end cfg t i then Stopped
                    else Busy (post_message cfg t (strip_start cfg t i) (strip_end cfg t i)))
             [0..<WORKER_COUNT cfg]
       \<and> completedWorkers (renderTileWithWorkers cfg t s) =
           length (filter (\<lambda>i. strip_start cfg t i \<ge> strip_end cfg t i) [0..<WORKER_COUNT cfg])"
proof (intro conjI allI impI)
  fix i
  show "strip_start cfg t i = i * nat \<lceil>real (tileHeight t) / real (WORKER_COUNT cfg)\<rceil>"
    by (simp add: strip_start_def tileStripHeight_def Math_ceil_def)
  show "strip_end cfg t i =
          min ((i + 1) * nat \<lceil>real (tileHeight t) / real (WORKER_COUNT cfg)\<rceil>) (tileHeight t)"
    by (simp add: strip_end_def strip_start_def tileStripHeight_def Math_ceil_def)
  show "strip_end cfg t i = min (strip_start cfg t (i + 1)) (tileHeight t)"
    by (simp add: strip_end_def strip_start_def)
next
  show "strip_start cfg t 0 = 0" by (simp add: strip_start_def)
next
  obtain k where k: "WORKER_COUNT cfg = Suc k" using W by (cases "WORKER_COUNT cfg") auto
  have "tileHeight t \<le> tileStripHeight cfg t * Suc k"
    using strip_height_bounds(1)[OF W, of t] by (simp only: k)
  then show "strip_end cfg t (WORKER_COUNT cfg - 1) = tileHeight t"
    by (simp add: strip_end_def strip_start_def k min_def algebra_simps)
next
  fix y assume "y < tileHeight t"
  with W show "\<exists>i<WORKER_COUNT cfg. strip_start cfg t i \<le> y \<and> y < strip_end cfg t i"
    by (rule strip_cover)
next
  fix i j y
  assume "strip_start cfg t i \<le> y \<and> y < strip_end cfg t i \<and>
          strip_start cfg t j \<le> y \<and> y < strip_end cfg t j"
  then show "i = j" by (blast intro: strip_disjoint)
next
  fix i y assume "strip_start cfg t i \<le> y \<and> y < strip_end cfg t i"
  then show "y < tileHeight t" by (simp add: strip_end_def)
next
  fix i j
  assume "strip_end cfg t i - strip_start cfg t i < tileStripHeight cfg t \<and> i < j"
  then have "strip_empty cfg t j" by (blast intro: strip_short_last)
  then show "strip_end cfg t j \<le> strip_start cfg t j" by (simp add: strip_empty_def)
next
  show "workers (renderTileWithWorkers cfg t s) =
           map (\<lambda>i. if strip_start cfg t i \<ge> strip_end cfg t i then Stopped
                    else Busy (post_message cfg t (strip_start cfg t i) (strip_end cfg t i)))
             [0..<WORKER_COUNT cfg]"
    by (simp add: renderTileWithWorkers_eq strip_worker_def strip_empty_def)
  show "completedWorkers (renderTileWithWorkers cfg t s) =
           length (filter (\<lambda>i. strip_start cfg t i \<ge> strip_end cfg t i) [0..<WORKER_COUNT cfg])"
    by (simp add: renderTileWithWorkers_eq strip_empty_def[abs_def])
qed

theorem strip_partition_witness:
  "0 < tileHeight (setup_tile c5) \<and> 0 < WORKER_COUNT c5 \<and>
   strip_end c5 (setup_tile c5) (WORKER_COUNT c5 - 1) = tileHeight (setup_tile c5) \<and>
   (\<exists>i<WORKER_COUNT c5. strip_start c5 (setup_tile c5) i \<le> 4 \<and> 4 < strip_end c5 (setup_tile c5) i) \<and>
   strip_end c5 (setup_tile c5) 3 \<le> strip_start c5 (setup_tile c5) 3 \<and>
   completedWorkers (renderTileWithWorkers c5 (setup_tile c5) (createCanvas (setup_tile c5))) = 1"
proof -
  have h: "0 < tileHeight t5" "0 < WORKER_COUNT c5" by (simp_all add: t5_def c5_def)
  note T = strip_partition[OF h, of "createCanvas t5"]
  note T4 = T[THEN conjunct2, THEN conjunct2, THEN conjunct2, THEN conjunct1]
  note T5 = T[THEN conjunct2, THEN conjunct2, THEN conjunct2, THEN conjunct2, THEN conjunct1,
      THEN spec, of 4]
  note T8 = T[THEN conjunct2, THEN conjunct2, THEN conjunct2, THEN conjunct2, THEN conjunct2,
      THEN conjunct2, THEN conjunct2, THEN conjunct1, THEN spec, THEN spec, of 2 3]
  note T10 = T[THEN conjunct2, THEN conjunct2, THEN conjunct2, THEN conjunct2, THEN conjunct2,
      THEN conjunct2, THEN conjunct2, THEN conjunct2, THEN conjunct2]
  have e: "strip_start c5 t5 i = i * 2" "strip_end c5 t5 i = min (i * 2 + 2) 5" for i
    by (simp_all add: strip_start_def strip_end_def S5) (simp add: t5_def)
  have "\<exists>i<WORKER_COUNT c5. strip_start c5 t5 i \<le> 4 \<and> 4 < strip_end c5 t5 i"
  proof -
    have "4 < tileHeight t5" by (simp add: t5_def)
    then show ?thesis using T5 by blast
  qed
  moreover have "strip_end c5 t5 3 \<le> strip_start c5 t5 3"
  proof -
    have "strip_end c5 t5 2 - strip_start c5 t5 2 < tileStripHeight c5 t5 \<and> (2::nat) < 3"
      by (simp add: e S5)
    then show ?thesis using T8 by blast
  qed
  moreover have "completedWorkers (renderTileWithWorkers c5 t5 (createCanvas t5)) = 1"
  proof -
    have "[0..<WORKER_COUNT c5] = [0, 1, 2, 3]" by (simp add: c5_def upt_rec)
    then have "length (filter (\<lambda>i. strip_start c5 t5 i \<ge> strip_end c5 t5 i) [0..<WORKER_COUNT c5]) = 1"
      by (simp add: e)
    with T10 show ?thesis by (rule trans)
  qed
  ultimately show ?thesis unfolding t5_setup using h T4 by blast
qed

text \<open>
  As first stated the claim lets only the last strip be short or empty. With five rows
  and four workers the strips are \<open>[0,2)\<close>, \<open>[2,4)\<close>, \<open>[4,5)\<close> and an
  empty one: the third strip is short and is not the last.
\<close>

theorem strip_partition_counterexample:
  "\<not> (\<forall>i. i < WORKER_COUNT c5 \<and>
          strip_end c5 (setup_tile c5) i - strip_start c5 (setup_tile c5) i
            < tileStripHeight c5 (setup_tile c5) \<longrightarrow>
          i = WORKER_COUNT c5 - 1)"
proof
  assume "\<forall>i. i < WORKER_COUNT c5 \<and>
          strip_end c5 (setup_tile c5) i - strip_start c5 (setup_tile c5) i
            < tileStripHeight c5 (setup_tile c5) \<longrightarrow>
          i = WORKER_COUNT c5 - 1"
  then have "2 < WORKER_COUNT c5 \<and>
          strip_end c5 (setup_tile c5) 2 - strip_start c5 (setup_tile c5) 2
            < tileStripHeight c5 (setup_tile c5) \<longrightarrow>
          2 = WORKER_COUNT c5 - 1" by (rule spec)
  then show False
    by (simp add: t5_setup strip_end_def strip_start_def S5) (simp add: c5_def t5_def)
qed

section \<open>The worker's buffer, pixel by pixel\<close>

lemma rgba_bytes_length: "length (rgba_bytes c) = 4"
  by (simp add: rgba_bytes_def split: option.split)

lemma shade_length: "length (shade n cx cy) = 4"
  by (simp add: shade_def Let_def rgba_bytes_length split: prod.split)

lemma store_pixel_length: "length (store_pixel m y x px) = length px"
  by (simp add: store_pixel_def Let_def)

lemma upd4_other:
  "j < i \<or> i + 4 \<le> j \<Longrightarrow> xs[i := a0, i + 1 := a1, i + 2 := a2, i + 3 := a3] ! j = xs ! j"
  by auto

lemma upd4_hit:
  assumes "i + 4 \<le> length xs" and "c < 4"
  shows "xs[i := a0, i + 1 := a1, i + 2 := a2, i + 3 := a3] ! (i + c) = [a0, a1, a2, a3] ! c"
proof -
  have "c = 0 \<or> c = 1 \<or> c = 2 \<or> c = 3" using assms(2) by arith
  then show ?thesis using assms(1) by (auto simp: nth_list_update)
qed

lemma nth4: "c < 4 \<Longrightarrow> [xs ! 0, xs ! 1, xs ! 2, xs ! 3] ! c = xs ! c"
proof -
  assume "c < 4"
  then have "c = 0 \<or> c = 1 \<or> c = 2 \<or> c = 3" by arith
  then show ?thesis by auto
qed

lemma store_pixel_other:
  assumes "j < (y - startYInTile m) * m_tileWidth m * 4 + x * 4 \<or>
           (y - startYInTile m) * m_tileWidth m * 4 + x * 4 + 4 \<le> j"
  shows "store_pixel m y x px ! j = px ! j"
  unfolding store_pixel_def Let_def using assms by (rule upd4_other)

lemma store_pixel_hit:
  assumes "(y - startYInTile m) * m_tileWidth m * 4 + x * 4 + 4 \<le> length px" and "c < 4"
  shows "store_pixel m y x px ! ((y - startYInTile m) * m_tileWidth m * 4 + x * 4 + c) =
         shade (maxIter m) (pixel_cx m x) (pixel_cy m y) ! c"
  unfolding store_pixel_def Let_def
  by (simp only: upd4_hit[OF assms] nth4[OF assms(2)])

lemma render_row_prefix:
  assumes "(y - startYInTile m) * m_tileWidth m * 4 + n * 4 \<le> length px"
  shows "length (fold (store_pixel m y) [0..<n] px) = length px
       \<and> (\<forall>x c. x < n \<and> c < 4 \<longrightarrow>
            fold (store_pixel m y) [0..<n] px ! ((y - startYInTile m) * m_tileWidth m * 4 + x * 4 + c) =
            shade (maxIter m) (pixel_cx m x) (pixel_cy m y) ! c)
       \<and> (\<forall>j. j < (y - startYInTile m) * m_tileWidth m * 4 \<or>
               (y - startYInTile m) * m_tileWidth m * 4 + n * 4 \<le> j \<longrightarrow>
            fold (store_pixel m y) [0..<n] px ! j = px ! j)"
  using assms
proof (induction n)
  case 0
  then show ?case by simp
next
  case (Suc n)
  let ?b = "(y - startYInTile m) * m_tileWidth m * 4"
  let ?p = "fold (store_pixel m y) [0..<n] px"
  have len: "?b + n * 4 \<le> length px" using Suc.prems by simp
  have IH: "length ?p = length px"
    "\<And>x c. x < n \<Longrightarrow> c < (4::nat) \<Longrightarrow>
       ?p ! (?b + x * 4 + c) = shade (maxIter m) (pixel_cx m x) (pixel_cy m y) ! c"
    "\<And>j. j < ?b \<or> ?b + n * 4 \<le> j \<Longrightarrow> ?p ! j = px ! j"
    using Suc.IH[OF len] by blast+
  have step: "fold (store_pixel m y) [0..<Suc n] px = store_pixel m y n ?p" by simp
  show ?case unfolding step
  proof (intro conjI allI impI)
    show "length (store_pixel m y n ?p) = length px" by (simp add: store_pixel_length IH(1))
  next
    fix x and c :: nat assume xc: "x < Suc n \<and> c < 4"
    show "store_pixel m y n ?p ! (?b + x * 4 + c) = shade (maxIter m) (pixel_cx m x) (pixel_cy m y) ! c"
    proof (cases "x = n")
      case True
      have "?b + n * 4 + 4 \<le> length ?p" using Suc.prems IH(1) by simp
      then show ?thesis using xc unfolding True by (intro store_pixel_hit) simp_all
    next
      case False
      then have x: "x < n" using xc by simp
      have "?b + x * 4 + c < ?b + n * 4" using x xc by simp
      then have "store_pixel m y n ?p ! (?b + x * 4 + c) = ?p ! (?b + x * 4 + c)"
        by (intro store_pixel_other) simp
      then show ?thesis using IH(2)[OF x] xc by simp
    qed
  next
    fix j assume j: "j < ?b \<or> ?b + Suc n * 4 \<le> j"
    then have "store_pixel m y n ?p ! j = ?p ! j" by (intro store_pixel_other) auto
    moreover have "?p ! j = px ! j" using j by (intro IH(3)) auto
    ultimately show "store_pixel m y n ?p ! j = px ! j" by simp
  qed
qed

lemma render_row_facts:
  assumes "(y - startYInTile m) * m_tileWidth m * 4 + m_tileWidth m * 4 \<le> length px"
  shows "length (render_row m y px) = length px"
    and "x < m_tileWidth m \<Longrightarrow> c < 4 \<Longrightarrow>
         render_row m y px ! ((y - startYInTile m) * m_tileWidth m * 4 + x * 4 + c) =
         shade (maxIter m) (pixel_cx m x) (pixel_cy m y) ! c"
    and "j < (y - startYInTile m) * m_tileWidth m * 4 \<or>
         (y - startYInTile m) * m_tileWidth m * 4 + m_tileWidth m * 4 \<le> j \<Longrightarrow>
         render_row m y px ! j = px ! j"
  using render_row_prefix[OF assms] unfolding render_row_def by blast+

lemma render_rows_prefix:
  assumes "k * m_tileWidth m * 4 \<le> length px"
  shows "length (fold (render_row m) [startYInTile m..<startYInTile m + k] px) = length px
       \<and> (\<forall>y x c. startYInTile m \<le> y \<and> y < startYInTile m + k \<and> x < m_tileWidth m \<and> c < 4 \<longrightarrow>
            fold (render_row m) [startYInTile m..<startYInTile m + k] px !
              ((y - startYInTile m) * m_tileWidth m * 4 + x * 4 + c) =
            shade (maxIter m) (pixel_cx m x) (pixel_cy m y) ! c)"
  using assms
proof (induction k)
  case 0
  then show ?case by simp
next
  case (Suc k)
  let ?s = "startYInTile m"
  let ?w = "m_tileWidth m"
  let ?p = "fold (render_row m) [?s..<?s + k] px"
  have len: "k * ?w * 4 \<le> length px" using Suc.prems by simp
  have IH: "length ?p = length px"
    "\<And>y x c. ?s \<le> y \<Longrightarrow> y < ?s + k \<Longrightarrow> x < ?w \<Longrightarrow> c < (4::nat) \<Longrightarrow>
       ?p ! ((y - ?s) * ?w * 4 + x * 4 + c) = shade (maxIter m) (pixel_cx m x) (pixel_cy m y) ! c"
    using Suc.IH[OF len] by blast+
  have step: "fold (render_row m) [?s..<?s + Suc k] px = render_row m (?s + k) ?p" by simp
  have room: "(?s + k - ?s) * ?w * 4 + ?w * 4 \<le> length ?p"
    using Suc.prems IH(1) by (simp add: algebra_simps)
  show ?case unfolding step
  proof (intro conjI allI impI)
    show "length (render_row m (?s + k) ?p) = length px"
      using render_row_facts(1)[OF room] IH(1) by simp
  next
    fix y x and c :: nat
    assume a: "?s \<le> y \<and> y < ?s + Suc k \<and> x < ?w \<and> c < 4"
    show "render_row m (?s + k) ?p ! ((y - ?s) * ?w * 4 + x * 4 + c) =
          shade (maxIter m) (pixel_cx m x) (pixel_cy m y) ! c"
    proof (cases "y = ?s + k")
      case True
      show ?thesis using render_row_facts(2)[OF room, of x c] a unfolding True by simp
    next
      case False
      then have y: "y < ?s + k" using a by simp
      then have "y - ?s + 1 \<le> k" using a by linarith
      then have "(y - ?s + 1) * (?w * 4) \<le> k * (?w * 4)" by (rule mult_le_mono1)
      moreover have "x * 4 + c < ?w * 4" using a by simp
      ultimately have "(y - ?s) * ?w * 4 + x * 4 + c < (?s + k - ?s) * ?w * 4"
        by (simp add: algebra_simps)
      then have "render_row m (?s + k) ?p ! ((y - ?s) * ?w * 4 + x * 4 + c) =
                   ?p ! ((y - ?s) * ?w * 4 + x * 4 + c)"
        by (intro render_row_facts(3)[OF room]) simp
      then show ?thesis using IH(2)[of y x c] a y by simp
    qed
  qed
qed

lemma worker_pixels:
  assumes "worker_onmessage m = Inr d"
  shows "startYInTile m \<le> endYInTile m"
    and "r_startYInTile d = startYInTile m"
    and "r_endYInTile d = endYInTile m"
    and "length (pixels d) = m_tileWidth m * (endYInTile m - startYInTile m) * 4"
    and "startYInTile m \<le> y \<Longrightarrow> y < endYInTile m \<Longrightarrow> x < m_tileWidth m \<Longrightarrow> c < 4 \<Longrightarrow>
         pixels d ! ((y - startYInTile m) * m_tileWidth m * 4 + x * 4 + c) =
         shade (maxIter m) (pixel_cx m x) (pixel_cy m y) ! c"
proof -
  show le: "startYInTile m \<le> endYInTile m"
    using assms by (simp add: worker_onmessage_def split: if_splits)
  define k where "k = endYInTile m - startYInTile m"
  have e: "endYInTile m = startYInTile m + k" using le by (simp add: k_def)
  define px0 :: "nat list" where "px0 = replicate (m_tileWidth m * k * 4) 0"
  have d: "d = \<lparr>pixels = fold (render_row m) [startYInTile m..<startYInTile m + k] px0,
               r_startYInTile = startYInTile m, r_endYInTile = endYInTile m\<rparr>"
    using assms le by (simp add: worker_onmessage_def Let_def px0_def k_def split: if_splits)
  have room: "k * m_tileWidth m * 4 \<le> length px0" by (simp add: px0_def)
  note R = render_rows_prefix[OF room]
  have px: "pixels d = fold (render_row m) [startYInTile m..<startYInTile m + k] px0"
    by (simp add: d)
  show "r_startYInTile d = startYInTile m" "r_endYInTile d = endYInTile m" by (simp_all add: d)
  have "length (pixels d) = length px0" unfolding px using R by blast
  then show "length (pixels d) = m_tileWidth m * (endYInTile m - startYInTile m) * 4"
    by (simp add: px0_def k_def)
  show "pixels d ! ((y - startYInTile m) * m_tileWidth m * 4 + x * 4 + c) =
         shade (maxIter m) (pixel_cx m x) (pixel_cy m y) ! c"
    if "startYInTile m \<le> y" "y < endYInTile m" "x < m_tileWidth m" "c < 4"
  proof -
    have "y < startYInTile m + k" using that(2) e by simp
    then show ?thesis unfolding px using R that(1,3,4) by blast
  qed
qed

lemma worker_total: "startYInTile m \<le> endYInTile m \<Longrightarrow> \<exists>d. worker_onmessage m = Inr d"
  by (simp add: worker_onmessage_def Let_def)

section \<open>Drawing a strip on the canvas\<close>

lemma post_message_fields:
  "m_tileWidth (post_message cfg t y0 y1) = tileWidth t"
  "startYInTile (post_message cfg t y0 y1) = y0"
  "endYInTile (post_message cfg t y0 y1) = y1"
  "maxIter (post_message cfg t y0 y1) = MAX_ITER cfg"
  by (simp_all add: post_message_def)

lemma post_message_coords:
  "pixel_cx (post_message cfg t y0 y1) x = pixel_cx (post_message cfg t y0' y1') x"
  "pixel_cy (post_message cfg t y0 y1) y = pixel_cy (post_message cfg t y0' y1') y"
  by (simp_all add: pixel_cx_def pixel_cy_def xScale_def yScale_def globalX_def globalY_def
      post_message_def)

lemma render_sequential_length:
  "length (render_sequential cfg t) = tileWidth t * tileHeight t * 4"
proof -
  obtain d where d: "worker_onmessage (post_message cfg t 0 (tileHeight t)) = Inr d"
    by (simp add: worker_onmessage_def post_message_fields Let_def)
  show ?thesis
    using worker_pixels(4)[OF d] by (simp add: render_sequential_def d post_message_fields)
qed

lemma render_sequential_nth:
  assumes "y < tileHeight t" and "x < tileWidth t" and "c < 4"
  shows "render_sequential cfg t ! (y * tileWidth t * 4 + x * 4 + c) =
         shade (MAX_ITER cfg) (pixel_cx (post_message cfg t y0 y1) x)
           (pixel_cy (post_message cfg t y0 y1) y) ! c"
proof -
  let ?m = "post_message cfg t 0 (tileHeight t)"
  obtain d where d: "worker_onmessage ?m = Inr d"
    by (simp add: worker_onmessage_def post_message_fields Let_def)
  have "pixels d ! ((y - startYInTile ?m) * m_tileWidth ?m * 4 + x * 4 + c) =
        shade (maxIter ?m) (pixel_cx ?m x) (pixel_cy ?m y) ! c"
    using assms by (intro worker_pixels(5)[OF d]) (simp_all add: post_message_fields)
  then show ?thesis
    by (simp add: render_sequential_def d post_message_fields
        post_message_coords(1)[of cfg t y0 y1 x 0 "tileHeight t"]
        post_message_coords(2)[of cfg t y0 y1 y 0 "tileHeight t"])
qed

lemma strip_reply_nth:
  assumes d: "worker_onmessage (post_message cfg t y0 y1) = Inr d"
    and "y0 \<le> y" "y < y1" "y1 \<le> tileHeight t" "x < tileWidth t" "c < 4"
  shows "pixels d ! ((y - y0) * tileWidth t * 4 + x * 4 + c) =
         render_sequential cfg t ! (y * tileWidth t * 4 + x * 4 + c)"
proof -
  let ?m = "post_message cfg t y0 y1"
  have "pixels d ! ((y - startYInTile ?m) * m_tileWidth ?m * 4 + x * 4 + c) =
        shade (maxIter ?m) (pixel_cx ?m x) (pixel_cy ?m y) ! c"
    using assms by (intro worker_pixels(5)[OF d]) (simp_all add: post_message_fields)
  moreover have "y < tileHeight t" using assms by simp
  ultimately show ?thesis
    using render_sequential_nth[of y t x c cfg y0 y1] assms
    by (simp add: post_message_fields)
qed

lemma putImageData_length: "length (putImageData cv cw img dx dy) = length cv"
  by (simp add: putImageData_def)

lemma byte_index_split:
  fixes k w :: nat
  assumes "0 < w"
  shows "k div 4 div w * w * 4 + k div 4 mod w * 4 + k mod 4 = k"
proof -
  have split: "k div 4 div w * w + k div 4 mod w = k div 4" by simp
  have "k div 4 div w * w * 4 + k div 4 mod w * 4 + k mod 4 =
        (k div 4 div w * w + k div 4 mod w) * 4 + k mod 4"
    by (simp only: add_mult_distrib)
  also have "\<dots> = k div 4 * 4 + k mod 4" by (simp only: split)
  also have "\<dots> = k" by simp
  finally show ?thesis .
qed

lemma row_of_byte:
  fixes k w lo hi :: nat
  assumes "0 < w"
  shows "lo \<le> k div 4 div w \<longleftrightarrow> lo * w * 4 \<le> k"
    and "k div 4 div w < hi \<longleftrightarrow> k < hi * w * 4"
proof -
  have "lo \<le> k div 4 div w \<longleftrightarrow> lo * w \<le> k div 4"
    using assms by (simp add: less_eq_div_iff_mult_less_eq)
  also have "\<dots> \<longleftrightarrow> lo * w * 4 \<le> k" by (simp add: less_eq_div_iff_mult_less_eq)
  finally show "lo \<le> k div 4 div w \<longleftrightarrow> lo * w * 4 \<le> k" .
  have "k div 4 div w < hi \<longleftrightarrow> k div 4 < hi * w"
    using assms by (simp add: div_less_iff_less_mult)
  also have "\<dots> \<longleftrightarrow> k < hi * w * 4" by (simp add: div_less_iff_less_mult)
  finally show "k div 4 div w < hi \<longleftrightarrow> k < hi * w * 4" .
qed

lemma draw_strip:
  assumes d: "worker_onmessage (post_message cfg t y0 y1) = Inr d"
    and w: "0 < tileWidth t" and y: "y0 \<le> y1" "y1 \<le> tileHeight t"
    and k: "k < length cv" and len: "length cv = tileWidth t * tileHeight t * 4"
  shows "putImageData cv (tileWidth t)
           \<lparr>img_data = pixels d, img_width = tileWidth t, img_height = y1 - y0\<rparr> 0 y0 ! k =
         (if y0 * tileWidth t * 4 \<le> k \<and> k < y1 * tileWidth t * 4
          then render_sequential cfg t ! k else cv ! k)"
proof -
  let ?w = "tileWidth t"
  let ?X = "k div 4 mod ?w"
  let ?Y = "k div 4 div ?w"
  have X: "?X < ?w" using w by simp
  have c: "k mod 4 < 4" by simp
  have inside: "(0 \<le> ?X \<and> ?X < 0 + ?w \<and> y0 \<le> ?Y \<and> ?Y < y0 + (y1 - y0)) \<longleftrightarrow>
                (y0 * ?w * 4 \<le> k \<and> k < y1 * ?w * 4)"
    using X y(1) row_of_byte(1)[OF w, where k=k and lo=y0] row_of_byte(2)[OF w, where k=k and hi=y1]
    by simp
  have hit: "pixels d ! (((?Y - y0) * ?w + (?X - 0)) * 4 + k mod 4) = render_sequential cfg t ! k"
    if "y0 * ?w * 4 \<le> k" "k < y1 * ?w * 4"
  proof -
    have Y: "y0 \<le> ?Y" "?Y < y1"
      using that row_of_byte(1)[OF w, where k=k and lo=y0] row_of_byte(2)[OF w, where k=k and hi=y1]
      by simp_all
    have "pixels d ! ((?Y - y0) * ?w * 4 + ?X * 4 + k mod 4) =
          render_sequential cfg t ! (?Y * ?w * 4 + ?X * 4 + k mod 4)"
      using d Y y(2) X c by (rule strip_reply_nth)
    then show ?thesis by (simp only: byte_index_split[OF w]) (simp add: algebra_simps)
  qed
  have "putImageData cv ?w \<lparr>img_data = pixels d, img_width = ?w, img_height = y1 - y0\<rparr> 0 y0 ! k =
        (if 0 \<le> ?X \<and> ?X < 0 + ?w \<and> y0 \<le> ?Y \<and> ?Y < y0 + (y1 - y0)
         then pixels d ! (((?Y - y0) * ?w + (?X - 0)) * 4 + k mod 4) else cv ! k)"
    using k by (simp add: putImageData_def Let_def)
  then show ?thesis unfolding inside using hit by simp
qed

section \<open>An invariant of the scheduler\<close>

lemma skipped_dispatched_count:
  "length (skipped cfg t) + length (dispatched cfg t) = WORKER_COUNT cfg"
  unfolding skipped_def dispatched_def
  using sum_length_filter_compl[of "strip_empty cfg t" "[0..<WORKER_COUNT cfg]"] by simp

lemma dispatched_iff: "i \<in> set (dispatched cfg t) \<longleftrightarrow> i < WORKER_COUNT cfg \<and> \<not> strip_empty cfg t i"
  by (auto simp: dispatched_def)

lemma strip_range_inj:
  assumes "\<not> strip_empty cfg t i" and "strip_range cfg t i = strip_range cfg t j"
  shows "i = j"
proof -
  have "0 < tileStripHeight cfg t"
    using assms(1) by (cases "tileStripHeight cfg t") (simp_all add: strip_empty_def strip_end_def strip_start_def)
  moreover have "i * tileStripHeight cfg t = j * tileStripHeight cfg t"
    using assms(2) by (simp add: strip_range_def strip_start_def)
  ultimately show ?thesis by simp
qed

lemma sched_inv_init: "sched_inv cfg t (renderTileWithWorkers cfg t (createCanvas t))"
proof -
  have "strip_worker cfg t i = Stopped \<or> (i \<in> set (dispatched cfg t))" if "i < WORKER_COUNT cfg" for i
    using that by (simp add: strip_worker_def dispatched_iff)
  then show ?thesis
    by (simp add: sched_inv_def renderTileWithWorkers_eq createCanvas_def skipped_def)
qed

lemma all_drawn:
  assumes inv: "sched_inv cfg t s" and fin: "completedWorkers s = WORKER_COUNT cfg"
  shows "set (drawn s) = strip_range cfg t ` set (dispatched cfg t)"
proof (rule card_seteq)
  show "finite (strip_range cfg t ` set (dispatched cfg t))" by simp
  show "set (drawn s) \<subseteq> strip_range cfg t ` set (dispatched cfg t)"
    using inv by (simp add: sched_inv_def)
  have "length (drawn s) = length (dispatched cfg t)"
    using inv fin skipped_dispatched_count[of cfg t] by (simp add: sched_inv_def)
  moreover have "card (set (drawn s)) = length (drawn s)"
    using inv by (simp add: sched_inv_def distinct_card)
  moreover have "card (strip_range cfg t ` set (dispatched cfg t)) \<le> card (set (dispatched cfg t))"
    by (rule card_image_le) simp
  moreover have "card (set (dispatched cfg t)) \<le> length (dispatched cfg t)"
    by (rule card_length)
  ultimately show "card (strip_range cfg t ` set (dispatched cfg t)) \<le> card (set (drawn s))"
    by simp
qed

lemma new_ImageData_ok:
  assumes "new_ImageData px sw sh = Inr img"
  shows "0 < sw" and "img = \<lparr>img_data = px, img_width = sw, img_height = sh\<rparr>"
  using assms by (auto simp: new_ImageData_def split: if_splits)

lemma deliver_cases:
  obtains (same) "deliver cfg t i s = s"
  | (stop) m where "i < length (workers s)" "workers s ! i = Busy m"
      "(\<exists>e. worker_onmessage m = Inl e) \<or>
       (\<exists>d e. worker_onmessage m = Inr d \<and>
          new_ImageData (pixels d) (tileWidth t) (r_endYInTile d - r_startYInTile d) = Inl e)"
      "deliver cfg t i s = s\<lparr>workers := (workers s)[i := Stopped]\<rparr>"
  | (draw) m d img where "i < length (workers s)" "workers s ! i = Busy m"
      "worker_onmessage m = Inr d"
      "new_ImageData (pixels d) (tileWidth t) (r_endYInTile d - r_startYInTile d) = Inr img"
      "deliver cfg t i s =
         (if completedWorkers s + 1 = WORKER_COUNT cfg
          then s\<lparr>canvas := putImageData (canvas s) (tileWidth t) img 0 (r_startYInTile d),
                 completedWorkers := completedWorkers s + 1,
                 drawn := drawn s @ [(r_startYInTile d, r_endYInTile d)],
                 saved := saved s @ [putImageData (canvas s) (tileWidth t) img 0 (r_startYInTile d)],
                 workers := []\<rparr>
          else s\<lparr>canvas := putImageData (canvas s) (tileWidth t) img 0 (r_startYInTile d),
                 completedWorkers := completedWorkers s + 1,
                 drawn := drawn s @ [(r_startYInTile d, r_endYInTile d)],
                 workers := (workers s)[i := Stopped]\<rparr>)"
proof (cases "i < length (workers s)")
  case False
  then show ?thesis by (intro same) (simp add: deliver_def)
next
  case i: True
  show ?thesis
  proof (cases "workers s ! i")
    case Stopped
    then show ?thesis using i by (intro same) (simp add: deliver_def)
  next
    case (Busy m)
    show ?thesis
    proof (cases "worker_onmessage m")
      case (Inl e)
      then show ?thesis using i Busy by (intro stop[of m]) (simp_all add: deliver_def)
    next
      case (Inr d)
      show ?thesis
      proof (cases "new_ImageData (pixels d) (tileWidth t) (r_endYInTile d - r_startYInTile d)")
        case (Inl e)
        then show ?thesis using i Busy Inr
          by (intro stop[of m]) (simp_all add: deliver_def onmessage_def Let_def)
      next
        case img: (Inr img)
        show ?thesis
          using i Busy Inr img
          by (intro draw[of m d img]) (simp_all add: deliver_def onmessage_def Let_def)
      qed
    qed
  qed
qed

lemma strip_end_le: "strip_end cfg t i \<le> tileHeight t"
  by (simp add: strip_end_def)

lemma sched_inv_deliver:
  assumes inv: "sched_inv cfg t s"
  shows "sched_inv cfg t (deliver cfg t i s)"
proof (cases rule: deliver_cases[of cfg t i s])
  case same
  then show ?thesis using inv by simp
next
  case stop
  have "(workers s)[i := Stopped] ! j = Stopped \<or> (workers s)[i := Stopped] ! j = workers s ! j"
    if "j < length (workers s)" for j
    using that by (cases "j = i") simp_all
  then have "\<forall>j<length ((workers s)[i := Stopped]). (workers s)[i := Stopped] ! j = Stopped \<or>
        (j \<in> set (dispatched cfg t) \<and> (workers s)[i := Stopped] ! j = strip_worker cfg t j \<and>
         strip_range cfg t j \<notin> set (drawn s))"
    using inv unfolding sched_inv_def by (metis length_list_update)
  moreover have "saved s = []" using inv stop(1) unfolding sched_inv_def by auto
  ultimately show ?thesis using inv unfolding stop(4) sched_inv_def by simp
next
  case (draw m d img)
  let ?w = "tileWidth t"
  let ?lo = "strip_start cfg t i"
  let ?hi = "strip_end cfg t i"
  let ?cv = "putImageData (canvas s) ?w img 0 (r_startYInTile d)"
  have len: "length (canvas s) = ?w * tileHeight t * 4"
    and cnt: "completedWorkers s = length (skipped cfg t) + length (drawn s)"
    and dist: "distinct (drawn s)"
    and sub: "set (drawn s) \<subseteq> strip_range cfg t ` set (dispatched cfg t)"
    and wk: "\<And>j. j < length (workers s) \<Longrightarrow> workers s ! j = Stopped \<or>
        (j \<in> set (dispatched cfg t) \<and> workers s ! j = strip_worker cfg t j \<and>
         strip_range cfg t j \<notin> set (drawn s))"
    and cv: "\<And>p k. p \<in> set (drawn s) \<Longrightarrow> fst p * ?w * 4 \<le> k \<Longrightarrow> k < snd p * ?w * 4 \<Longrightarrow>
        canvas s ! k = render_sequential cfg t ! k"
    and sv: "saved s \<noteq> [] \<longrightarrow> workers s = []"
    using inv unfolding sched_inv_def by blast+
  have i: "i \<in> set (dispatched cfg t)" "workers s ! i = strip_worker cfg t i"
    "strip_range cfg t i \<notin> set (drawn s)"
    using wk[OF draw(1)] draw(2) by simp_all
  have ne: "\<not> strip_empty cfg t i" using i(1) by (simp add: dispatched_iff)
  have m: "m = post_message cfg t ?lo ?hi"
    using i(2) draw(2) ne by (simp add: strip_worker_def)
  have d: "worker_onmessage (post_message cfg t ?lo ?hi) = Inr d" using draw(3) m by simp
  have r: "r_startYInTile d = ?lo" "r_endYInTile d = ?hi"
    using worker_pixels(2,3)[OF d] by (simp_all add: post_message_fields)
  have w: "0 < ?w" and img: "img = \<lparr>img_data = pixels d, img_width = ?w, img_height = ?hi - ?lo\<rparr>"
    using new_ImageData_ok[OF draw(4)] by (simp_all add: r)
  have lohi: "?lo \<le> ?hi" using ne by (simp add: strip_empty_def)
  have nosave: "saved s = []" using sv draw(1) by auto
  have cv_len: "length ?cv = ?w * tileHeight t * 4" by (simp add: putImageData_length len)
  have cv_nth: "?cv ! k = (if ?lo * ?w * 4 \<le> k \<and> k < ?hi * ?w * 4
                          then render_sequential cfg t ! k else canvas s ! k)"
    if "k < length (canvas s)" for k
    unfolding r img using d w lohi strip_end_le that len by (rule draw_strip)
  have in_canvas: "k < length (canvas s)"
    if "p \<in> strip_range cfg t ` set (dispatched cfg t)" "k < snd p * ?w * 4" for p k
  proof -
    have "snd p \<le> tileHeight t" using that(1) by (auto simp: strip_range_def strip_end_le)
    then have "snd p * (?w * 4) \<le> tileHeight t * (?w * 4)" by (rule mult_le_mono1)
    moreover have "k < snd p * (?w * 4)" using that(2) by (simp add: mult.assoc)
    moreover have "length (canvas s) = tileHeight t * (?w * 4)" by (simp add: len)
    ultimately show ?thesis by linarith
  qed
  have range_i: "strip_range cfg t i \<in> strip_range cfg t ` set (dispatched cfg t)"
    using i(1) by simp
  have A: "distinct (drawn s @ [(?lo, ?hi)])"
    using dist i(3) by (simp add: strip_range_def)
  have B: "set (drawn s @ [(?lo, ?hi)]) \<subseteq> strip_range cfg t ` set (dispatched cfg t)"
    using sub range_i by (simp add: strip_range_def)
  have C: "?cv ! k = render_sequential cfg t ! k"
    if "p \<in> set (drawn s @ [(?lo, ?hi)])" "fst p * ?w * 4 \<le> k" "k < snd p * ?w * 4" for p k
  proof -
    have "p \<in> strip_range cfg t ` set (dispatched cfg t)" using B that(1) by blast
    then have k: "k < length (canvas s)" using that(3) by (rule in_canvas)
    show ?thesis
    proof (cases "p = (?lo, ?hi)")
      case True
      then show ?thesis using cv_nth[OF k] that(2,3) by simp
    next
      case False
      then have "p \<in> set (drawn s)" using that(1) by simp
      then have "canvas s ! k = render_sequential cfg t ! k" using that(2,3) by (rule cv)
      then show ?thesis using cv_nth[OF k] by simp
    qed
  qed
  have D: "(workers s)[i := Stopped] ! j = Stopped \<or>
        (j \<in> set (dispatched cfg t) \<and> (workers s)[i := Stopped] ! j = strip_worker cfg t j \<and>
         strip_range cfg t j \<notin> set (drawn s @ [(?lo, ?hi)]))"
    if "j < length (workers s)" for j
  proof (cases "j = i")
    case True
    then show ?thesis using that by simp
  next
    case False
    then have same: "(workers s)[i := Stopped] ! j = workers s ! j" by simp
    have "strip_range cfg t j \<noteq> (?lo, ?hi)"
      using strip_range_inj[OF ne, of j] False by (auto simp: strip_range_def)
    then show ?thesis using wk[OF that] unfolding same by auto
  qed
  show ?thesis
  proof (cases "completedWorkers s + 1 = WORKER_COUNT cfg")
    case True
    then have "deliver cfg t i s =
          s\<lparr>canvas := ?cv, completedWorkers := completedWorkers s + 1,
            drawn := drawn s @ [(?lo, ?hi)], saved := saved s @ [?cv], workers := []\<rparr>"
      using draw(5) by (simp add: r)
    then show ?thesis
      unfolding sched_inv_def using cv_len cnt A B C True nosave by simp
  next
    case False
    then have "deliver cfg t i s =
          s\<lparr>canvas := ?cv, completedWorkers := completedWorkers s + 1,
            drawn := drawn s @ [(?lo, ?hi)], workers := (workers s)[i := Stopped]\<rparr>"
      using draw(5) by (simp add: r)
    then show ?thesis
      unfolding sched_inv_def using cv_len cnt A B C D nosave by simp
  qed
qed

lemma sched_inv_crash:
  assumes inv: "sched_inv cfg t s"
  shows "sched_inv cfg t (crash i s)"
proof (cases "i < length (workers s)")
  case False
  then have "(workers s)[i := Stopped] = workers s" by (intro list_update_beyond) simp
  then have "crash i s = s" by (simp add: crash_def)
  then show ?thesis using inv by simp
next
  case True
  have "(workers s)[i := Stopped] ! j = Stopped \<or> (workers s)[i := Stopped] ! j = workers s ! j"
    if "j < length (workers s)" for j
    using that by (cases "j = i") simp_all
  then have "\<forall>j<length ((workers s)[i := Stopped]). (workers s)[i := Stopped] ! j = Stopped \<or>
        (j \<in> set (dispatched cfg t) \<and> (workers s)[i := Stopped] ! j = strip_worker cfg t j \<and>
         strip_range cfg t j \<notin> set (drawn s))"
    using inv unfolding sched_inv_def by (metis length_list_update)
  moreover have "saved s = []" using inv True unfolding sched_inv_def by auto
  ultimately show ?thesis using inv unfolding crash_def sched_inv_def by simp
qed

lemma sched_inv_step: "sched_inv cfg t s \<Longrightarrow> sched_inv cfg t (step cfg t ev s)"
  by (cases ev) (simp_all add: sched_inv_deliver sched_inv_crash)

lemma sched_inv_run: "sched_inv cfg t (run cfg t evs)"
proof -
  have "sched_inv cfg t (fold (step cfg t) evs s)" if "sched_inv cfg t s" for s
    using that by (induction evs arbitrary: s) (simp_all add: sched_inv_step)
  then show ?thesis unfolding run_def using sched_inv_init by blast
qed

section \<open>Progress while no worker fails\<close>

lemma new_ImageData_strip:
  assumes w: "0 < tileWidth t" and lohi: "lo < hi"
    and d: "worker_onmessage (post_message cfg t lo hi) = Inr d"
  shows "\<exists>img. new_ImageData (pixels d) (tileWidth t) (r_endYInTile d - r_startYInTile d) = Inr img"
proof -
  have r: "r_endYInTile d - r_startYInTile d = hi - lo"
    using worker_pixels(2,3)[OF d] by (simp add: post_message_fields)
  have len: "length (pixels d) = tileWidth t * (hi - lo) * 4"
    using worker_pixels(4)[OF d] by (simp add: post_message_fields)
  have "tileWidth t * (hi - lo) \<noteq> 0" using w lohi by simp
  then show ?thesis using w by (simp add: new_ImageData_def r len)
qed

lemma worker_ok: "lo \<le> hi \<Longrightarrow> \<exists>d. worker_onmessage (post_message cfg t lo hi) = Inr d"
  by (simp add: worker_onmessage_def post_message_fields Let_def)

lemma sched_live_init: "sched_live cfg t (renderTileWithWorkers cfg t (createCanvas t))"
  by (auto simp: sched_live_def renderTileWithWorkers_eq createCanvas_def dispatched_iff)

lemma sched_live_deliver:
  assumes inv: "sched_inv cfg t s" and live: "sched_live cfg t s" and w: "0 < tileWidth t"
  shows "sched_live cfg t (deliver cfg t i s)"
    and "set (drawn s) \<subseteq> set (drawn (deliver cfg t i s))"
    and "i \<in> set (dispatched cfg t) \<Longrightarrow> strip_range cfg t i \<in> set (drawn (deliver cfg t i s))"
proof -
  have wk: "\<And>j. j < length (workers s) \<Longrightarrow> workers s ! j = Stopped \<or>
        (j \<in> set (dispatched cfg t) \<and> workers s ! j = strip_worker cfg t j \<and>
         strip_range cfg t j \<notin> set (drawn s))"
    and sv: "saved s \<noteq> [] \<longrightarrow> workers s = []"
    using inv unfolding sched_inv_def by blast+
  have lv: "\<And>j. j \<in> set (dispatched cfg t) \<Longrightarrow> strip_range cfg t j \<in> set (drawn s) \<or>
        (j < length (workers s) \<and> workers s ! j = strip_worker cfg t j)"
    and fin: "completedWorkers s = WORKER_COUNT cfg \<and> drawn s \<noteq> [] \<longrightarrow> saved s \<noteq> []"
    using live unfolding sched_live_def by blast+
  have busy: "strip_worker cfg t j = Busy (post_message cfg t (strip_start cfg t j) (strip_end cfg t j))
              \<and> strip_start cfg t j < strip_end cfg t j"
    if "j \<in> set (dispatched cfg t)" for j
    using that by (simp add: dispatched_iff strip_worker_def strip_empty_def)
  have inv': "sched_inv cfg t (deliver cfg t i s)" using inv by (rule sched_inv_deliver)
  have "sched_live cfg t (deliver cfg t i s) \<and> set (drawn s) \<subseteq> set (drawn (deliver cfg t i s)) \<and>
        (i \<in> set (dispatched cfg t) \<longrightarrow> strip_range cfg t i \<in> set (drawn (deliver cfg t i s)))"
  proof (cases rule: deliver_cases[of cfg t i s])
    case same
    have "strip_range cfg t i \<in> set (drawn s)" if i: "i \<in> set (dispatched cfg t)"
    proof (rule ccontr)
      assume nd: "strip_range cfg t i \<notin> set (drawn s)"
      then have il: "i < length (workers s)" and wi: "workers s ! i = strip_worker cfg t i"
        using lv[OF i] by simp_all
      obtain d where d: "worker_onmessage (post_message cfg t (strip_start cfg t i) (strip_end cfg t i)) = Inr d"
        using worker_ok[of "strip_start cfg t i" "strip_end cfg t i"] busy[OF i] by auto
      obtain img where "new_ImageData (pixels d) (tileWidth t) (r_endYInTile d - r_startYInTile d) = Inr img"
        using new_ImageData_strip[OF w _ d] busy[OF i] by blast
      then have "drawn (deliver cfg t i s) \<noteq> drawn s"
        using il wi busy[OF i] d by (simp add: deliver_def onmessage_def Let_def)
      then show False using same by simp
    qed
    then show ?thesis using live same by auto
  next
    case (stop m)
    have i: "i \<in> set (dispatched cfg t)" and m: "workers s ! i = strip_worker cfg t i"
      using wk[OF stop(1)] stop(2) by simp_all
    have mm: "m = post_message cfg t (strip_start cfg t i) (strip_end cfg t i)"
      using busy[OF i] m stop(2) by simp
    obtain d where d: "worker_onmessage m = Inr d"
      using worker_ok[of "strip_start cfg t i" "strip_end cfg t i" cfg t] busy[OF i] mm by auto
    obtain img where "new_ImageData (pixels d) (tileWidth t) (r_endYInTile d - r_startYInTile d) = Inr img"
      using new_ImageData_strip[OF w _ d[unfolded mm]] busy[OF i] by blast
    then have False using stop(3) d by auto
    then show ?thesis ..
  next
    case (draw m d img)
    have i: "i \<in> set (dispatched cfg t)" and m: "workers s ! i = strip_worker cfg t i"
      using wk[OF draw(1)] draw(2) by simp_all
    have mm: "m = post_message cfg t (strip_start cfg t i) (strip_end cfg t i)"
      using busy[OF i] m draw(2) by simp
    have r: "(r_startYInTile d, r_endYInTile d) = strip_range cfg t i"
      using worker_pixels(2,3)[OF draw(3)] by (simp add: mm post_message_fields strip_range_def)
    have dr: "drawn (deliver cfg t i s) = drawn s @ [strip_range cfg t i]"
      using draw(5) r by simp
    show ?thesis
    proof (cases "completedWorkers s + 1 = WORKER_COUNT cfg")
      case True
      then have st: "completedWorkers (deliver cfg t i s) = WORKER_COUNT cfg"
        "saved (deliver cfg t i s) \<noteq> []"
        using draw(5) by simp_all
      have "set (drawn (deliver cfg t i s)) = strip_range cfg t ` set (dispatched cfg t)"
        using inv' st(1) by (rule all_drawn)
      then show ?thesis using st dr by (auto simp: sched_live_def)
    next
      case False
      then have st: "completedWorkers (deliver cfg t i s) = completedWorkers s + 1"
        "workers (deliver cfg t i s) = (workers s)[i := Stopped]"
        "saved (deliver cfg t i s) = saved s"
        using draw(5) by simp_all
      have nosave: "saved s = []" using sv draw(1) by auto
      have "strip_range cfg t j \<in> set (drawn (deliver cfg t i s)) \<or>
            (j < length (workers (deliver cfg t i s)) \<and>
             workers (deliver cfg t i s) ! j = strip_worker cfg t j)"
        if j: "j \<in> set (dispatched cfg t)" for j
      proof (cases "j = i")
        case True
        then show ?thesis by (simp add: dr)
      next
        case False
        then show ?thesis using lv[OF j] by (auto simp: dr st(2))
      qed
      moreover have "completedWorkers (deliver cfg t i s) \<noteq> WORKER_COUNT cfg"
        using False st(1) by simp
      ultimately show ?thesis by (auto simp: sched_live_def dr)
    qed
  qed
  then show "sched_live cfg t (deliver cfg t i s)"
    and "set (drawn s) \<subseteq> set (drawn (deliver cfg t i s))"
    and "i \<in> set (dispatched cfg t) \<Longrightarrow> strip_range cfg t i \<in> set (drawn (deliver cfg t i s))"
    by blast+
qed

lemma fold_deliver_live:
  assumes "sched_inv cfg t s" and "sched_live cfg t s" and "0 < tileWidth t"
  shows "sched_inv cfg t (fold (deliver cfg t) evs s) \<and> sched_live cfg t (fold (deliver cfg t) evs s) \<and>
         set (drawn s) \<subseteq> set (drawn (fold (deliver cfg t) evs s)) \<and>
         (\<forall>i\<in>set evs \<inter> set (dispatched cfg t).
            strip_range cfg t i \<in> set (drawn (fold (deliver cfg t) evs s)))"
  using assms(1,2)
proof (induction evs arbitrary: s)
  case Nil
  then show ?case by simp
next
  case (Cons e evs)
  note D = sched_live_deliver[OF Cons.prems assms(3), of e]
  note I = sched_inv_deliver[OF Cons.prems(1), of e]
  note IH = Cons.IH[OF I D(1)]
  show ?case using IH D(2,3) by auto
qed

lemma fold_step_Finish: "fold (step cfg t) (map Finish is) s = fold (deliver cfg t) is s"
  by (induction "is" arbitrary: s) simp_all

lemma run_complete:
  assumes w: "0 < tileWidth t" and all: "set (dispatched cfg t) \<subseteq> set evs"
    and ne: "dispatched cfg t \<noteq> []"
  shows "set (drawn (run cfg t (map Finish evs))) = strip_range cfg t ` set (dispatched cfg t)"
    and "completedWorkers (run cfg t (map Finish evs)) = WORKER_COUNT cfg"
    and "saved (run cfg t (map Finish evs)) = [canvas (run cfg t (map Finish evs))]"
proof -
  let ?s = "run cfg t (map Finish evs)"
  have F: "sched_inv cfg t ?s" "sched_live cfg t ?s"
    "\<forall>i\<in>set evs \<inter> set (dispatched cfg t). strip_range cfg t i \<in> set (drawn ?s)"
    using fold_deliver_live[OF sched_inv_init sched_live_init w, of cfg evs]
    unfolding run_def fold_step_Finish by blast+
  have sub: "strip_range cfg t ` set (dispatched cfg t) \<subseteq> set (drawn ?s)"
    using F(3) all by auto
  moreover have sup: "set (drawn ?s) \<subseteq> strip_range cfg t ` set (dispatched cfg t)"
    using F(1) by (simp add: sched_inv_def)
  ultimately show eq: "set (drawn ?s) = strip_range cfg t ` set (dispatched cfg t)" by blast
  have inj: "inj_on (strip_range cfg t) (set (dispatched cfg t))"
    by (rule inj_onI) (auto simp: dispatched_iff dest: strip_range_inj)
  have "length (drawn ?s) = card (set (drawn ?s))"
    using F(1) by (simp add: sched_inv_def distinct_card)
  also have "\<dots> = card (set (dispatched cfg t))" unfolding eq using inj by (rule card_image)
  also have "\<dots> = length (dispatched cfg t)"
    by (rule distinct_card) (simp add: dispatched_def)
  finally have n: "length (drawn ?s) = length (dispatched cfg t)" .
  then show c: "completedWorkers ?s = WORKER_COUNT cfg"
    using F(1) skipped_dispatched_count[of cfg t] by (simp add: sched_inv_def)
  have "drawn ?s \<noteq> []" using n ne by auto
  then have "saved ?s \<noteq> []" using F(2) c by (simp add: sched_live_def)
  then show "saved ?s = [canvas ?s]" using F(1) by (simp add: sched_inv_def)
qed

section \<open>Reassembly and completion\<close>

lemma dispatched_ranges:
  "(\<forall>i<WORKER_COUNT cfg. strip_start cfg t i < strip_end cfg t i \<longrightarrow>
      (strip_start cfg t i, strip_end cfg t i) \<in> A) \<longleftrightarrow>
   strip_range cfg t ` set (dispatched cfg t) \<subseteq> A"
  by (auto simp: dispatched_iff strip_range_def strip_empty_def not_le)

lemma dispatched_length:
  "length (dispatched cfg t) =
   length (filter (\<lambda>i. strip_start cfg t i < strip_end cfg t i) [0..<WORKER_COUNT cfg])"
  by (simp add: dispatched_def strip_empty_def not_le)

lemma skipped_length:
  "length (skipped cfg t) =
   length (filter (\<lambda>i. strip_start cfg t i \<ge> strip_end cfg t i) [0..<WORKER_COUNT cfg])"
  by (simp add: skipped_def strip_empty_def[abs_def])

lemma canvas_complete:
  assumes inv: "sched_inv cfg t s" and w: "0 < tileWidth t" and W: "0 < WORKER_COUNT cfg"
    and all: "strip_range cfg t ` set (dispatched cfg t) \<subseteq> set (drawn s)"
  shows "canvas s = render_sequential cfg t"
proof (rule nth_equalityI)
  have len: "length (canvas s) = tileWidth t * tileHeight t * 4"
    using inv by (simp add: sched_inv_def)
  then show "length (canvas s) = length (render_sequential cfg t)"
    by (simp add: render_sequential_length)
  fix k assume "k < length (canvas s)"
  then have k: "k < tileHeight t * tileWidth t * 4" by (simp add: len mult.commute)
  let ?Y = "k div 4 div tileWidth t"
  have "?Y < tileHeight t" using k row_of_byte(2)[OF w, of k "tileHeight t"] by simp
  then obtain i where i: "i < WORKER_COUNT cfg" "strip_start cfg t i \<le> ?Y" "?Y < strip_end cfg t i"
    using strip_cover[OF W] by blast
  then have "\<not> strip_empty cfg t i" by (simp add: strip_empty_def)
  then have "strip_range cfg t i \<in> set (drawn s)" using all i(1) by (auto simp: dispatched_iff)
  moreover have "fst (strip_range cfg t i) * tileWidth t * 4 \<le> k"
    using i(2) row_of_byte(1)[OF w, of "strip_start cfg t i" k] by (simp add: strip_range_def)
  moreover have "k < snd (strip_range cfg t i) * tileWidth t * 4"
    using i(3) row_of_byte(2)[OF w, of k "strip_end cfg t i"] by (simp add: strip_range_def)
  ultimately show "canvas s ! k = render_sequential cfg t ! k"
    using inv unfolding sched_inv_def by blast
qed

lemma strip_buffer_slice:
  assumes d: "worker_onmessage (post_message cfg t lo hi) = Inr d"
    and w: "0 < tileWidth t" and hi: "hi \<le> tileHeight t"
  shows "pixels d = take ((hi - lo) * tileWidth t * 4) (drop (lo * tileWidth t * 4) (render_sequential cfg t))"
proof (rule nth_equalityI)
  let ?w = "tileWidth t"
  have lohi: "lo \<le> hi" using worker_pixels(1)[OF d] by (simp add: post_message_fields)
  have len: "length (pixels d) = (hi - lo) * ?w * 4"
    using worker_pixels(4)[OF d] by (simp add: post_message_fields mult.commute)
  have "hi * (?w * 4) \<le> tileHeight t * (?w * 4)" using hi by (rule mult_le_mono1)
  then have room: "lo * ?w * 4 + (hi - lo) * ?w * 4 \<le> length (render_sequential cfg t)"
    using lohi by (simp add: render_sequential_length algebra_simps)
  then show "length (pixels d) =
      length (take ((hi - lo) * ?w * 4) (drop (lo * ?w * 4) (render_sequential cfg t)))"
    by (simp add: len)
  fix j assume "j < length (pixels d)"
  then have j: "j < (hi - lo) * ?w * 4" by (simp add: len)
  let ?X = "j div 4 mod ?w"
  let ?Y = "j div 4 div ?w"
  have Y: "?Y < hi - lo" using j row_of_byte(2)[OF w, of j "hi - lo"] by simp
  have split: "?Y * ?w * 4 + ?X * 4 + j mod 4 = j" using w by (rule byte_index_split)
  have "pixels d ! ((lo + ?Y - lo) * ?w * 4 + ?X * 4 + j mod 4) =
        render_sequential cfg t ! ((lo + ?Y) * ?w * 4 + ?X * 4 + j mod 4)"
    using d _ _ hi by (rule strip_reply_nth) (use Y w in simp_all)
  moreover have "(lo + ?Y - lo) * ?w * 4 + ?X * 4 + j mod 4 = j"
    by (simp only: add_diff_cancel_left' split)
  moreover have "(lo + ?Y) * ?w * 4 + ?X * 4 + j mod 4 = lo * ?w * 4 + j"
  proof -
    have "(lo + ?Y) * ?w * 4 + ?X * 4 + j mod 4 = lo * ?w * 4 + (?Y * ?w * 4 + ?X * 4 + j mod 4)"
      by (simp only: add_mult_distrib add.assoc)
    then show ?thesis by (simp only: split)
  qed
  ultimately have "pixels d ! j = render_sequential cfg t ! (lo * ?w * 4 + j)"
    by simp
  then show "pixels d ! j =
      take ((hi - lo) * ?w * 4) (drop (lo * ?w * 4) (render_sequential cfg t)) ! j"
    using j room by simp
qed

text \<open>
  Claim C4 (strip reassembly). For a tile of width and height at least 1 and at least
  one worker, in every execution in which no worker fails and each worker that was
  posted a strip finishes (in any order), the canvas ends as the byte sequence that one
  pass of the worker's loop over all rows of the tile produces, and that is the canvas
  saved. Each strip's
  buffer is the slice of that sequence which starts at byte \<open>startYInTile * tileWidth * 4\<close>
  and holds the strip's rows, \<open>tileWidth * 4\<close> bytes each.
\<close>

theorem strip_reassembly:
  assumes "0 < tileWidth t" and "0 < tileHeight t" and "0 < WORKER_COUNT cfg"
    and "\<forall>i<WORKER_COUNT cfg. strip_start cfg t i < strip_end cfg t i \<longrightarrow> i \<in> set evs"
  shows "canvas (run cfg t (map Finish evs)) = render_sequential cfg t
       \<and> saved (run cfg t (map Finish evs)) = [render_sequential cfg t]
       \<and> (\<forall>i<WORKER_COUNT cfg. strip_start cfg t i < strip_end cfg t i \<longrightarrow>
            (\<exists>d. worker_onmessage (post_message cfg t (strip_start cfg t i) (strip_end cfg t i)) = Inr d \<and>
                 pixels d = take ((strip_end cfg t i - strip_start cfg t i) * tileWidth t * 4)
                              (drop (strip_start cfg t i * tileWidth t * 4) (render_sequential cfg t))))"
proof (intro conjI allI impI)
  have all: "set (dispatched cfg t) \<subseteq> set evs"
    using assms(4) by (auto simp: dispatched_iff strip_empty_def)
  obtain i0 where "i0 < WORKER_COUNT cfg" "strip_start cfg t i0 \<le> 0" "0 < strip_end cfg t i0"
    using strip_cover[OF assms(3,2)] by blast
  then have "i0 \<in> set (dispatched cfg t)" by (simp add: dispatched_iff strip_empty_def)
  then have ne: "dispatched cfg t \<noteq> []" by auto
  note R = run_complete[OF assms(1) all ne]
  have "strip_range cfg t ` set (dispatched cfg t) \<subseteq> set (drawn (run cfg t (map Finish evs)))"
    using R(1) by simp
  with sched_inv_run assms(1,3)
  show c: "canvas (run cfg t (map Finish evs)) = render_sequential cfg t"
    by (rule canvas_complete)
  show "saved (run cfg t (map Finish evs)) = [render_sequential cfg t]" using R(3) c by simp
next
  fix i assume "i < WORKER_COUNT cfg" and lt: "strip_start cfg t i < strip_end cfg t i"
  obtain d where d: "worker_onmessage (post_message cfg t (strip_start cfg t i) (strip_end cfg t i)) = Inr d"
    using worker_ok[of "strip_start cfg t i" "strip_end cfg t i" cfg t] lt by auto
  from d assms(1) strip_end_le
  have "pixels d = take ((strip_end cfg t i - strip_start cfg t i) * tileWidth t * 4)
                              (drop (strip_start cfg t i * tileWidth t * 4) (render_sequential cfg t))"
    by (rule strip_buffer_slice)
  with d show "\<exists>d. worker_onmessage (post_message cfg t (strip_start cfg t i) (strip_end cfg t i)) = Inr d \<and>
                 pixels d = take ((strip_end cfg t i - strip_start cfg t i) * tileWidth t * 4)
                              (drop (strip_start cfg t i * tileWidth t * 4) (render_sequential cfg t))"
    by blast
qed

lemma c5_strips:
  "strip_start c5 t5 i = i * 2" "strip_end c5 t5 i = min (i * 2 + 2) 5"
  by (simp_all add: strip_start_def strip_end_def S5) (simp add: t5_def)

lemma c5_dispatched: "dispatched c5 t5 = [0, 1, 2]"
proof -
  have "[0..<WORKER_COUNT c5] = [0, 1, 2, 3]" by (simp add: c5_def upt_rec)
  then show ?thesis by (simp add: dispatched_def strip_empty_def c5_strips)
qed

theorem strip_reassembly_witness:
  "0 < tileWidth (setup_tile c5) \<and> 0 < tileHeight (setup_tile c5) \<and> 0 < WORKER_COUNT c5 \<and>
   canvas (run c5 (setup_tile c5) [Finish 2, Finish 0, Finish 1]) =
     render_sequential c5 (setup_tile c5) \<and>
   saved (run c5 (setup_tile c5) [Finish 2, Finish 0, Finish 1]) =
     [render_sequential c5 (setup_tile c5)]"
proof -
  have h: "0 < tileWidth t5" "0 < tileHeight t5" "0 < WORKER_COUNT c5"
    by (simp_all add: t5_def c5_def)
  have "i \<in> set [2, 0, 1]" if "i < WORKER_COUNT c5" "strip_start c5 t5 i < strip_end c5 t5 i" for i
  proof -
    have "i \<in> set (dispatched c5 t5)" using that by (simp add: dispatched_iff strip_empty_def)
    then show ?thesis by (auto simp: c5_dispatched)
  qed
  then have "\<forall>i<WORKER_COUNT c5. strip_start c5 t5 i < strip_end c5 t5 i \<longrightarrow> i \<in> set [2, 0, 1]"
    by blast
  with h show ?thesis unfolding t5_setup using strip_reassembly[of t5 c5 "[2, 0, 1]"] by simp
qed

text \<open>
  Claim C8 (completion detection), as amended. In every execution, workers finishing
  or failing in any order, once the canvas has been saved every strip that was posted to a worker has been drawn, the counter
  \<open>completedWorkers\<close> equals \<open>WORKER_COUNT\<close>, and the number of replies drawn is the
  number of posted strips. At all times the counter is the number of skipped strips plus
  the number of replies drawn: it is compared with \<open>WORKER_COUNT\<close>, not with the number
  of posted strips.
\<close>

theorem completion_detection:
  "(saved (run cfg t evs) \<noteq> [] \<longrightarrow>
      (\<forall>i<WORKER_COUNT cfg. strip_start cfg t i < strip_end cfg t i \<longrightarrow>
          (strip_start cfg t i, strip_end cfg t i) \<in> set (drawn (run cfg t evs))) \<and>
      completedWorkers (run cfg t evs) = WORKER_COUNT cfg \<and>
      length (drawn (run cfg t evs)) =
        length (filter (\<lambda>i. strip_start cfg t i < strip_end cfg t i) [0..<WORKER_COUNT cfg]))
   \<and> completedWorkers (run cfg t evs) =
        length (filter (\<lambda>i. strip_start cfg t i \<ge> strip_end cfg t i) [0..<WORKER_COUNT cfg]) +
        length (drawn (run cfg t evs))"
proof -
  let ?s = "run cfg t evs"
  have inv: "sched_inv cfg t ?s" by (rule sched_inv_run)
  have cnt: "completedWorkers ?s = length (skipped cfg t) + length (drawn ?s)"
    using inv by (simp add: sched_inv_def)
  have S: "(\<forall>i<WORKER_COUNT cfg. strip_start cfg t i < strip_end cfg t i \<longrightarrow>
          (strip_start cfg t i, strip_end cfg t i) \<in> set (drawn ?s)) \<and>
      completedWorkers ?s = WORKER_COUNT cfg \<and>
      length (drawn ?s) =
        length (filter (\<lambda>i. strip_start cfg t i < strip_end cfg t i) [0..<WORKER_COUNT cfg])"
    if "saved ?s \<noteq> []"
  proof -
    have fin: "completedWorkers ?s = WORKER_COUNT cfg" using inv that by (simp add: sched_inv_def)
    have "set (drawn ?s) = strip_range cfg t ` set (dispatched cfg t)" using inv fin by (rule all_drawn)
    then have "\<forall>i<WORKER_COUNT cfg. strip_start cfg t i < strip_end cfg t i \<longrightarrow>
          (strip_start cfg t i, strip_end cfg t i) \<in> set (drawn ?s)"
      by (simp add: dispatched_ranges)
    moreover have "length (drawn ?s) = length (dispatched cfg t)"
      using cnt fin skipped_dispatched_count[of cfg t] by simp
    ultimately show ?thesis using fin by (simp add: dispatched_length)
  qed
  show ?thesis using S cnt[unfolded skipped_length] by blast
qed

lemma c5_run_saved:
  "saved (run c5 t5 [Finish 0, Finish 1, Finish 2]) \<noteq> []"
  "completedWorkers (run c5 t5 [Finish 0, Finish 1, Finish 2]) = 4"
proof -
  have w: "0 < tileWidth t5" by (simp add: t5_def)
  have all: "set (dispatched c5 t5) \<subseteq> set [0, 1, 2]" by (simp add: c5_dispatched)
  have ne: "dispatched c5 t5 \<noteq> []" by (simp add: c5_dispatched)
  show "saved (run c5 t5 [Finish 0, Finish 1, Finish 2]) \<noteq> []"
    using run_complete(3)[OF w all ne] by simp
  show "completedWorkers (run c5 t5 [Finish 0, Finish 1, Finish 2]) = 4"
    using run_complete(2)[OF w all ne] by (simp add: c5_def)
qed

theorem completion_detection_witness:
  "saved (run c5 (setup_tile c5) [Finish 0, Finish 1, Finish 2]) \<noteq> [] \<and>
   (strip_start c5 (setup_tile c5) 2, strip_end c5 (setup_tile c5) 2)
     \<in> set (drawn (run c5 (setup_tile c5) [Finish 0, Finish 1, Finish 2])) \<and>
   completedWorkers (run c5 (setup_tile c5) [Finish 0, Finish 1, Finish 2]) = WORKER_COUNT c5 \<and>
   length (drawn (run c5 (setup_tile c5) [Finish 0, Finish 1, Finish 2])) = 3"
proof -
  have W: "2 < WORKER_COUNT c5" by (simp add: c5_def)
  have lt: "strip_start c5 t5 2 < strip_end c5 t5 2" by (simp add: c5_strips)
  have n: "length (filter (\<lambda>i. strip_start c5 t5 i < strip_end c5 t5 i) [0..<WORKER_COUNT c5]) = 3"
    using dispatched_length[of c5 t5] by (simp add: c5_dispatched)
  show ?thesis
    unfolding t5_setup
    using completion_detection[of c5 t5 "[Finish 0, Finish 1, Finish 2]"] c5_run_saved(1) W lt n by auto
qed

text \<open>
  As first stated the claim has the counter equal the number of posted strips when
  completion is detected. With five rows and four workers three strips are posted, and
  when the third reply is drawn the canvas is saved with the counter at four.
\<close>

theorem completion_detection_counterexample:
  "\<not> (saved (run c5 (setup_tile c5) [Finish 0, Finish 1, Finish 2]) \<noteq> [] \<longrightarrow>
       completedWorkers (run c5 (setup_tile c5) [Finish 0, Finish 1, Finish 2]) =
         length (filter (\<lambda>i. strip_start c5 (setup_tile c5) i < strip_end c5 (setup_tile c5) i)
                   [0..<WORKER_COUNT c5]))"
proof -
  have "length (filter (\<lambda>i. strip_start c5 t5 i < strip_end c5 t5 i) [0..<WORKER_COUNT c5]) = 3"
    using dispatched_length[of c5 t5] by (simp add: c5_dispatched)
  then show ?thesis unfolding t5_setup using c5_run_saved by simp
qed

section \<open>The escape loop, alignment and the escape radius\<close>

lemma mandel_loop_iter:
  "iter s \<le> n \<Longrightarrow> iter s \<le> iter (mandel_loop cx cy n s) \<and> iter (mandel_loop cx cy n s) \<le> n"
proof (induction cx cy n s rule: mandel_loop.induct)
  case (1 cx cy n s)
  show ?case
  proof (cases "zx2 s + zy2 s < 4 \<and> iter s < n")
    case True
    then have "iter (z_step cx cy s) \<le> n" by (simp add: z_step_def Let_def)
    then have "iter (z_step cx cy s) \<le> iter (mandel_loop cx cy n (z_step cx cy s)) \<and>
               iter (mandel_loop cx cy n (z_step cx cy s)) \<le> n"
      using "1.IH" True by blast
    moreover have "mandel_loop cx cy n s = mandel_loop cx cy n (z_step cx cy s)"
      using True by (subst mandel_loop.simps) simp
    moreover have "iter s \<le> iter (z_step cx cy s)" by (simp add: z_step_def Let_def)
    ultimately show ?thesis by simp
  next
    case False
    then have "mandel_loop cx cy n s = s" by (subst mandel_loop.simps) auto
    then show ?thesis using "1.prems" by simp
  qed
qed

lemma mandel_loop_exit:
  "\<not> (zx2 (mandel_loop cx cy n s) + zy2 (mandel_loop cx cy n s) < 4 \<and>
      iter (mandel_loop cx cy n s) < n)"
proof (induction cx cy n s rule: mandel_loop.induct)
  case (1 cx cy n s)
  show ?case
  proof (cases "zx2 s + zy2 s < 4 \<and> iter s < n")
    case True
    moreover from True have "mandel_loop cx cy n s = mandel_loop cx cy n (z_step cx cy s)"
      by (subst mandel_loop.simps) simp
    ultimately show ?thesis using "1.IH" by simp
  next
    case False
    then have "mandel_loop cx cy n s = s" by (subst mandel_loop.simps) auto
    then show ?thesis using False by simp
  qed
qed

lemma mandel_loop_first:
  "1 \<le> n \<Longrightarrow> mandel_loop cx cy n z_init = mandel_loop cx cy n (z_step cx cy z_init)"
  by (subst mandel_loop.simps) (simp add: z_init_def)

text \<open>
  Claim C9. With an iteration cap of at least 1 the initial state passes the loop's
  test, so the body runs at least once: the iteration count returned is between 1 and
  the cap.
\<close>

theorem escape_loop_enters:
  assumes "1 \<le> n"
  shows "zx2 z_init + zy2 z_init < 4
       \<and> mandel_loop cx cy n z_init = mandel_loop cx cy n (z_step cx cy z_init)
       \<and> 1 \<le> iter (mandel_loop cx cy n z_init)
       \<and> iter (mandel_loop cx cy n z_init) \<le> n"
proof -
  have one: "iter (z_step cx cy z_init) = 1" by (simp add: z_step_def z_init_def Let_def)
  then have "iter (z_step cx cy z_init) \<le> n" using assms by simp
  then have "1 \<le> iter (mandel_loop cx cy n (z_step cx cy z_init)) \<and>
             iter (mandel_loop cx cy n (z_step cx cy z_init)) \<le> n"
    using mandel_loop_iter[of "z_step cx cy z_init" n cx cy] one by simp
  then show ?thesis using mandel_loop_first[OF assms, of cx cy] by (simp add: z_init_def)
qed

theorem escape_loop_enters_witness:
  "(1::nat) \<le> 10 \<and> 1 \<le> iter (mandel_loop 2 2 10 z_init) \<and> iter (mandel_loop 2 2 10 z_init) \<le> 10"
proof -
  have h: "(1::nat) \<le> 10" by simp
  from escape_loop_enters[OF h, of 2 2] h show ?thesis by blast
qed

lemma mandel_2_2: "mandel_loop 2 2 10 z_init = \<lparr>zx = 2, zy = 2, zx2 = 4, zy2 = 4, iter = 1\<rparr>"
  by (simp add: mandel_loop.simps z_init_def z_step_def)





text \<open>
  Claim C1 (tile alignment). Two messages that agree on the full image's width and
  height, the zoom, the aspect ratio and the centre give the same complex point
  \<open>(cx, cy)\<close> to local positions with the same global pixel; the tile's width, height
  and offsets and the strip's bounds take no part, and the four bytes that two workers
  store for that pixel are the same when the iteration cap is the same. The values are
  compared as the numbers of this model.
\<close>

theorem tile_alignment:
  assumes "fullWidth m1 = fullWidth m2" and "fullHeight m1 = fullHeight m2"
    and "m_zoom m1 = m_zoom m2" and "aspectRatio m1 = aspectRatio m2"
    and "m_cenX m1 = m_cenX m2" and "m_cenY m1 = m_cenY m2"
    and "globalX m1 x1 = globalX m2 x2" and "globalY m1 y1 = globalY m2 y2"
  shows "pixel_cx m1 x1 = pixel_cx m2 x2 \<and> pixel_cy m1 y1 = pixel_cy m2 y2
       \<and> (\<forall>d1 d2 c. maxIter m1 = maxIter m2 \<and>
             worker_onmessage m1 = Inr d1 \<and> worker_onmessage m2 = Inr d2 \<and>
             startYInTile m1 \<le> y1 \<and> y1 < endYInTile m1 \<and> x1 < m_tileWidth m1 \<and>
             startYInTile m2 \<le> y2 \<and> y2 < endYInTile m2 \<and> x2 < m_tileWidth m2 \<and> c < 4 \<longrightarrow>
             pixels d1 ! ((y1 - startYInTile m1) * m_tileWidth m1 * 4 + x1 * 4 + c) =
             pixels d2 ! ((y2 - startYInTile m2) * m_tileWidth m2 * 4 + x2 * 4 + c))"
proof (intro conjI allI impI)
  show cx: "pixel_cx m1 x1 = pixel_cx m2 x2"
    unfolding pixel_cx_def xScale_def by (simp only: assms)
  show cy: "pixel_cy m1 y1 = pixel_cy m2 y2"
    unfolding pixel_cy_def yScale_def by (simp only: assms)
  fix d1 d2 and c :: nat
  assume a: "maxIter m1 = maxIter m2 \<and>
             worker_onmessage m1 = Inr d1 \<and> worker_onmessage m2 = Inr d2 \<and>
             startYInTile m1 \<le> y1 \<and> y1 < endYInTile m1 \<and> x1 < m_tileWidth m1 \<and>
             startYInTile m2 \<le> y2 \<and> y2 < endYInTile m2 \<and> x2 < m_tileWidth m2 \<and> c < 4"
  have "pixels d1 ! ((y1 - startYInTile m1) * m_tileWidth m1 * 4 + x1 * 4 + c) =
        shade (maxIter m1) (pixel_cx m1 x1) (pixel_cy m1 y1) ! c"
    using a by (intro worker_pixels(5)) simp_all
  moreover have "pixels d2 ! ((y2 - startYInTile m2) * m_tileWidth m2 * 4 + x2 * 4 + c) =
        shade (maxIter m2) (pixel_cx m2 x2) (pixel_cy m2 y2) ! c"
    using a by (intro worker_pixels(5)) simp_all
  ultimately show "pixels d1 ! ((y1 - startYInTile m1) * m_tileWidth m1 * 4 + x1 * 4 + c) =
             pixels d2 ! ((y2 - startYInTile m2) * m_tileWidth m2 * 4 + x2 * 4 + c)"
    using a cx cy by simp
qed

theorem tile_alignment_witness:
  "globalX mA 5 = globalX mB 14005 \<and> globalY mA 7 = globalY mB 8007 \<and>
   pixel_cx mA 5 = pixel_cx mB 14005 \<and> pixel_cy mA 7 = pixel_cy mB 8007 \<and>
   (\<exists>d1 d2. worker_onmessage mA = Inr d1 \<and> worker_onmessage mB = Inr d2 \<and>
      pixels d1 ! ((7 - startYInTile mA) * m_tileWidth mA * 4 + 5 * 4 + 3) =
      pixels d2 ! ((8007 - startYInTile mB) * m_tileWidth mB * 4 + 14005 * 4 + 3))"
proof -
  have h: "fullWidth mA = fullWidth mB" "fullHeight mA = fullHeight mB"
    "m_zoom mA = m_zoom mB" "aspectRatio mA = aspectRatio mB"
    "m_cenX mA = m_cenX mB" "m_cenY mA = m_cenY mB"
    "globalX mA 5 = globalX mB 14005" "globalY mA 7 = globalY mB 8007"
    by (simp_all add: mA_def mB_def globalX_def globalY_def)
  note T = tile_alignment[OF h]
  obtain d1 where d1: "worker_onmessage mA = Inr d1"
    using worker_total[of mA] by (auto simp: mA_def)
  obtain d2 where d2: "worker_onmessage mB = Inr d2"
    using worker_total[of mB] by (auto simp: mB_def)
  have "maxIter mA = maxIter mB \<and>
        worker_onmessage mA = Inr d1 \<and> worker_onmessage mB = Inr d2 \<and>
        startYInTile mA \<le> 7 \<and> 7 < endYInTile mA \<and> 5 < m_tileWidth mA \<and>
        startYInTile mB \<le> 8007 \<and> 8007 < endYInTile mB \<and> 14005 < m_tileWidth mB \<and> (3::nat) < 4"
    using d1 d2 by (simp add: mA_def mB_def)
  then have "pixels d1 ! ((7 - startYInTile mA) * m_tileWidth mA * 4 + 5 * 4 + 3) =
      pixels d2 ! ((8007 - startYInTile mB) * m_tileWidth mB * 4 + 14005 * 4 + 3)"
    using T[THEN conjunct2, THEN conjunct2] by blast
  then show ?thesis using T[THEN conjunct1] T[THEN conjunct2, THEN conjunct1] h(7,8) d1 d2 by blast
qed

text \<open>
  Claim C10. Changing \<open>ESCAPE_RADIUS\<close> alone changes neither the tile geometry, nor any
  message posted to a worker, nor any state of any execution (the canvas and the saved
  canvas among them), nor the sequential render: a worker's buffer is a function of its
  message, and the message has no field for the escape radius.
\<close>

theorem escape_radius_unused:
  "setup_tile (cfg\<lparr>ESCAPE_RADIUS := e\<rparr>) = setup_tile cfg
   \<and> post_message (cfg\<lparr>ESCAPE_RADIUS := e\<rparr>) t y0 y1 = post_message cfg t y0 y1
   \<and> run (cfg\<lparr>ESCAPE_RADIUS := e\<rparr>) t evs = run cfg t evs
   \<and> render_sequential (cfg\<lparr>ESCAPE_RADIUS := e\<rparr>) t = render_sequential cfg t"
proof -
  let ?c = "cfg\<lparr>ESCAPE_RADIUS := e\<rparr>"
  have pm: "post_message ?c t y0 y1 = post_message cfg t y0 y1" for y0 y1
    by (simp add: post_message_def ASPECT_RATIO_def)
  have ss: "strip_start ?c t = strip_start cfg t" "strip_end ?c t = strip_end cfg t"
    by (simp_all add: fun_eq_iff strip_start_def strip_end_def tileStripHeight_def)
  have dp: "dispatch ?c t = dispatch cfg t"
    by (intro ext) (simp add: dispatch_def Let_def ss pm)
  have rt: "renderTileWithWorkers ?c t = renderTileWithWorkers cfg t"
    by (intro ext) (simp add: renderTileWithWorkers_def dp)
  have WC: "WORKER_COUNT ?c = WORKER_COUNT cfg" by simp
  have om: "onmessage ?c t = onmessage cfg t"
  proof (intro ext)
    fix d s show "onmessage ?c t d s = onmessage cfg t d s" unfolding onmessage_def WC ..
  qed
  have dl: "deliver ?c t = deliver cfg t"
  proof (intro ext)
    fix i s show "deliver ?c t i s = deliver cfg t i s" unfolding deliver_def om ..
  qed
  have st: "step ?c t = step cfg t"
  proof (intro ext)
    fix ev s show "step ?c t ev s = step cfg t ev s" by (cases ev) (simp_all add: dl)
  qed
  have "run ?c t evs = run cfg t evs" by (simp add: run_def rt st)
  moreover have "setup_tile ?c = setup_tile cfg" by (simp add: setup_tile_def)
  moreover have "render_sequential ?c t = render_sequential cfg t"
    by (simp add: render_sequential_def pm)
  ultimately show ?thesis using pm by simp
qed

theorem escape_radius_unused_witness:
  "run (c5\<lparr>ESCAPE_RADIUS := 100\<rparr>) (setup_tile (c5\<lparr>ESCAPE_RADIUS := 100\<rparr>))
     [Finish 2, Crash 0, Finish 1] =
   run c5 (setup_tile c5) [Finish 2, Crash 0, Finish 1]"
proof -
  note E = escape_radius_unused[where cfg=c5 and e=100 and t="setup_tile c5" and evs="[Finish 2, Crash 0, Finish 1]"]
  show ?thesis
    by (simp only: E[THEN conjunct1] E[THEN conjunct2, THEN conjunct2, THEN conjunct1])
qed

section \<open>The hue and its remainders\<close>

lemma hsbToRgb_unfold:
  "hsbToRgb h s v =
     hsb_sectors (js_rem (js_rem h 360 + 360) 360) (max 0 (min 100 s) / 100) (max 0 (min 100 v) / 100)"
  by (simp add: hsbToRgb_def hsb_sectors_def Let_def)

lemma floor_mod360_range: "0 \<le> floor_mod360 x" "floor_mod360 x < 360"
proof -
  have "of_int \<lfloor>x / 360\<rfloor> \<le> x / 360" "x / 360 < of_int \<lfloor>x / 360\<rfloor> + 1" by linarith+
  then show "0 \<le> floor_mod360 x" "floor_mod360 x < 360"
    by (simp_all add: floor_mod360_def field_simps)
qed

lemma js_rem_nonneg: "0 \<le> x \<Longrightarrow> js_rem x 360 = floor_mod360 x"
  by (simp add: js_rem_def floor_mod360_def not_less)

lemma js_rem_neg:
  assumes "x < 0"
  shows "js_rem x 360 = x - 360 * of_int \<lceil>x / 360\<rceil>"
  using assms by (simp add: js_rem_def)

lemma norm_hue: "js_rem (js_rem h 360 + 360) 360 = floor_mod360 h"
proof (cases "0 \<le> h")
  case True
  let ?r = "floor_mod360 h"
  have r: "0 \<le> ?r" "?r < 360" by (rule floor_mod360_range)+
  have "\<lfloor>(?r + 360) / 360\<rfloor> = 1" using r by (intro floor_unique) (simp_all add: field_simps)
  then have "floor_mod360 (?r + 360) = ?r" by (simp add: floor_mod360_def[of "?r + 360"])
  moreover have "js_rem (?r + 360) 360 = floor_mod360 (?r + 360)" using r by (intro js_rem_nonneg) simp
  ultimately show ?thesis using True by (simp add: js_rem_nonneg)
next
  case False
  then have neg: "h < 0" by simp
  let ?q = "h / 360"
  let ?r = "h - 360 * of_int \<lceil>?q\<rceil>"
  have r1: "js_rem h 360 = ?r" using neg by (rule js_rem_neg)
  have c: "of_int \<lceil>?q\<rceil> - 1 < ?q" "?q \<le> of_int \<lceil>?q\<rceil>" by linarith+
  have hq: "h = 360 * ?q" by simp
  have r: "- 360 < ?r" "?r \<le> 0" using c hq by linarith+
  have nn: "0 \<le> ?r + 360" using r by simp
  show ?thesis
  proof (cases "?r = 0")
    case True
    then have q: "?q = of_int \<lceil>?q\<rceil>" by (simp add: field_simps)
    then have "\<lfloor>?q\<rfloor> = \<lceil>?q\<rceil>" by (metis floor_of_int)
    then have "floor_mod360 h = 0" using True by (simp add: floor_mod360_def)
    moreover have "js_rem (?r + 360) 360 = 0" using True by (simp add: js_rem_def)
    ultimately show ?thesis by (simp add: r1)
  next
    case False
    then have lt: "?q < of_int \<lceil>?q\<rceil>" using c(2) hq by linarith
    have fl: "\<lfloor>?q\<rfloor> = \<lceil>?q\<rceil> - 1" using c(1) lt by (intro floor_unique) simp_all
    have "?r + 360 < 360" using r(2) False by simp
    then have "\<lfloor>(?r + 360) / 360\<rfloor> = 0" using nn by (intro floor_unique) (simp_all add: field_simps)
    then have "floor_mod360 (?r + 360) = ?r + 360" by (simp add: floor_mod360_def[of "?r + 360"])
    moreover have "js_rem (?r + 360) 360 = floor_mod360 (?r + 360)" using nn by (rule js_rem_nonneg)
    moreover have "floor_mod360 h = ?r + 360" by (simp add: floor_mod360_def[of h] fl)
    ultimately show ?thesis by (simp add: r1)
  qed
qed

lemma floor_mod360_shift: "floor_mod360 (x - 360 * of_int k) = floor_mod360 x"
proof -
  have eq: "(x - 360 * of_int k) / 360 = x / 360 - of_int k" by (simp add: field_simps)
  have "\<lfloor>(x - 360 * of_int k) / 360\<rfloor> = \<lfloor>x / 360 - of_int k\<rfloor>" by (simp only: eq)
  also have "\<dots> = \<lfloor>x / 360\<rfloor> - k" by (rule floor_diff_of_int)
  finally have "\<lfloor>(x - 360 * of_int k) / 360\<rfloor> = \<lfloor>x / 360\<rfloor> - k" .
  then show ?thesis by (simp add: floor_mod360_def algebra_simps)
qed

lemma floor_mod360_js_rem: "floor_mod360 (js_rem x 360) = floor_mod360 x"
  unfolding js_rem_def by (rule floor_mod360_shift)

lemma floor_mod360_idem: "floor_mod360 (floor_mod360 x) = floor_mod360 x"
proof -
  have "floor_mod360 (x - 360 * of_int \<lfloor>x / 360\<rfloor>) = floor_mod360 x"
    by (rule floor_mod360_shift)
  then show ?thesis by (simp add: floor_mod360_def[of x])
qed

lemma hsbToRgb_hue_mod: "hsbToRgb (js_rem x 360) s v = hsbToRgb (floor_mod360 x) s v"
  by (simp only: hsbToRgb_unfold norm_hue floor_mod360_js_rem floor_mod360_idem)

section \<open>Colour: range and formula\<close>

lemma round_unit:
  assumes "0 \<le> x" and "x \<le> 1"
  shows "0 \<le> Math_round (x * 255)" and "Math_round (x * 255) \<le> 255"
proof -
  have "(0::real) \<le> x * 255 + 1 / 2" using assms(1) by simp
  then show "0 \<le> Math_round (x * 255)" by (simp add: Math_round_def le_floor_iff)
  have "x * 255 + 1 / 2 < 256" using assms(2) by simp
  then show "Math_round (x * 255) \<le> 255" by (simp add: Math_round_def floor_le_iff)
qed

lemma unit_mult:
  fixes x y :: real
  assumes "0 \<le> x" "x \<le> 1" "0 \<le> y" "y \<le> 1"
  shows "0 \<le> x * y" and "x * y \<le> 1"
  using assms by (simp_all add: mult_le_one)

lemma sector_select:
  fixes i :: int
  assumes "0 \<le> i" and "i < 6"
  shows "js_rem (of_int i) 6 = of_int i"
proof -
  have "\<lfloor>real_of_int i / 6\<rfloor> = 0" using assms by (intro floor_unique) simp_all
  moreover have "\<not> real_of_int i / 6 < 0" using assms by simp
  ultimately show ?thesis by (simp add: js_rem_def)
qed

lemma hsb_sectors_range:
  assumes h: "0 \<le> h" "h < 360" and s: "0 \<le> s" "s \<le> 1" and v: "0 \<le> v" "v \<le> 1"
  shows "\<exists>c. hsb_sectors h s v = Some c \<and> 0 \<le> r c \<and> r c \<le> 255 \<and>
             0 \<le> g c \<and> g c \<le> 255 \<and> 0 \<le> b c \<and> b c \<le> 255"
proof -
  define i where "i = Math_floor (h / 60)"
  define f where "f = h / 60 - of_int i"
  have fl: "of_int i \<le> h / 60" "h / 60 < of_int i + 1"
    unfolding i_def Math_floor_def by linarith+
  have i: "0 \<le> i" "i < 6" using fl h by linarith+
  have f: "0 \<le> f" "f \<le> 1" using fl by (simp_all add: f_def)
  have f': "0 \<le> 1 - f" "1 - f \<le> 1" using f by simp_all
  have s': "0 \<le> 1 - s" "1 - s \<le> 1" using s by simp_all
  have sf: "0 \<le> 1 - s * f" "1 - s * f \<le> 1"
    using unit_mult[OF s f] by simp_all
  have sf': "0 \<le> 1 - s * (1 - f)" "1 - s * (1 - f) \<le> 1"
    using unit_mult[OF s f'] by simp_all
  note P = unit_mult[OF v s'] and Q = unit_mult[OF v sf] and T = unit_mult[OF v sf']
  note R = round_unit[OF v] round_unit[OF P] round_unit[OF Q] round_unit[OF T]
  have k: "js_rem (of_int i) 6 = of_int i" using i by (rule sector_select)
  have "i = 0 \<or> i = 1 \<or> i = 2 \<or> i = 3 \<or> i = 4 \<or> i = 5" using i by arith
  then show ?thesis
    unfolding hsb_sectors_def Let_def i_def[symmetric] f_def[symmetric] k
    using R by (elim disjE) simp_all
qed

lemma clamp_unit:
  fixes x :: real
  shows "0 \<le> max 0 (min 100 x) / 100" and "max 0 (min 100 x) / 100 \<le> 1"
  by simp_all

lemma clamp_idem:
  fixes x :: real
  shows "max 0 (min 100 (max 0 (min 100 x))) = max 0 (min 100 x)"
  by simp

lemma shade_nth:
  "shade n cx cy ! 3 = 255" "c < 4 \<Longrightarrow> shade n cx cy ! c < 256"
proof -
  have R: "rgba_bytes x ! 3 = 255" "c < 4 \<Longrightarrow> rgba_bytes x ! c < 256" for x
  proof -
    show "rgba_bytes x ! 3 = 255" by (simp add: rgba_bytes_def split: option.split)
    assume "c < 4"
    then have "c = 0 \<or> c = 1 \<or> c = 2 \<or> c = 3" by arith
    then show "rgba_bytes x ! c < 256"
      by (auto simp: rgba_bytes_def toUint8Clamped_def split: option.split)
  qed
  show "shade n cx cy ! 3 = 255" by (simp add: shade_def Let_def R split: prod.split)
  assume c: "c < 4"
  then have "c = 0 \<or> c = 1 \<or> c = 2 \<or> c = 3" by arith
  then have "[0, 0, 0, 255::nat] ! c < 256" by auto
  then show "shade n cx cy ! c < 256" using R(2)[OF c] by (simp add: shade_def Let_def split: prod.split)
qed

lemma worker_pixel_bytes:
  assumes d: "worker_onmessage m = Inr d"
    and p: "p < m_tileWidth m * (endYInTile m - startYInTile m)" and c: "c < 4"
  shows "pixels d ! (p * 4 + c) =
         shade (maxIter m) (pixel_cx m (p mod m_tileWidth m))
           (pixel_cy m (startYInTile m + p div m_tileWidth m)) ! c"
proof -
  let ?w = "m_tileWidth m"
  let ?y = "startYInTile m + p div ?w"
  have w: "0 < ?w" using p by (cases "?w") simp_all
  have "p div ?w < endYInTile m - startYInTile m"
    using p w by (simp add: div_less_iff_less_mult mult.commute)
  then have y: "startYInTile m \<le> ?y" "?y < endYInTile m" by simp_all
  have x: "p mod ?w < ?w" using w by simp
  have "pixels d ! ((?y - startYInTile m) * ?w * 4 + p mod ?w * 4 + c) =
        shade (maxIter m) (pixel_cx m (p mod ?w)) (pixel_cy m ?y) ! c"
    using d y x c by (rule worker_pixels(5))
  moreover have "(?y - startYInTile m) * ?w * 4 + p mod ?w * 4 + c = p * 4 + c"
  proof -
    have e: "(p div ?w * ?w + p mod ?w) * 4 = p * 4" by simp
    have "(?y - startYInTile m) * ?w * 4 + p mod ?w * 4 + c =
          (p div ?w * ?w + p mod ?w) * 4 + c"
      by (simp only: add_diff_cancel_left' add_mult_distrib)
    then show ?thesis by (simp only: e)
  qed
  ultimately show ?thesis by simp
qed

lemma hsbToRgb_real_range:
  "\<exists>c. hsbToRgb h s v = Some c \<and> 0 \<le> r c \<and> r c \<le> 255 \<and>
       0 \<le> g c \<and> g c \<le> 255 \<and> 0 \<le> b c \<and> b c \<le> 255"
  unfolding hsbToRgb_unfold norm_hue
  using floor_mod360_range clamp_unit clamp_unit by (rule hsb_sectors_range)

lemma hsbToRgb_real_clamp:
  "hsbToRgb h s v = hsbToRgb h (max 0 (min 100 s)) (max 0 (min 100 v))"
  by (simp only: hsbToRgb_unfold clamp_idem)

lemma worker_alpha:
  assumes "worker_onmessage m = Inr d"
    and "p < m_tileWidth m * (endYInTile m - startYInTile m)"
  shows "pixels d ! (p * 4 + 3) = 255" and "c < 4 \<Longrightarrow> pixels d ! (p * 4 + c) < 256"
proof -
  show "pixels d ! (p * 4 + 3) = 255"
    using worker_pixel_bytes[OF assms, of 3] by (simp add: shade_nth)
  show "pixels d ! (p * 4 + c) < 256" if "c < 4"
    using worker_pixel_bytes[OF assms that] that by (simp add: shade_nth)
qed

lemma N_sub_Finite: "N_sub (Finite x) (Finite y) = Finite (x - y)"
  by (simp add: N_sub_def)

lemma hsbToRgb_Number_finite:
  "hsbToRgb_Number (Finite h) (Finite s) (Finite v) =
     (case hsbToRgb h s v of
        None \<Rightarrow> \<lparr>r_N = NaN, g_N = NaN, b_N = NaN\<rparr>
      | Some c \<Rightarrow> \<lparr>r_N = Finite (of_int (r c)), g_N = Finite (of_int (g c)),
                   b_N = Finite (of_int (b c))\<rparr>)"
  by (simp add: hsbToRgb_Number_def hsbToRgb_def N_sub_Finite Let_def)

lemma hsbToRgb_Number_hue_not_finite:
  assumes "h = NaN \<or> h = PosInfinity \<or> h = NegInfinity"
  shows "hsbToRgb_Number h s v = \<lparr>r_N = NaN, g_N = NaN, b_N = NaN\<rparr>"
  using assms by (auto simp: hsbToRgb_Number_def Let_def)

lemma hsbToRgb_Number_brightness_NaN:
  "hsbToRgb_Number h s NaN = \<lparr>r_N = NaN, g_N = NaN, b_N = NaN\<rparr>"
  by (simp add: hsbToRgb_Number_def Let_def)

lemma clamp_N_values:
  "Math_max_N (Finite 0) (Math_min_N (Finite 100) (Finite x)) = Finite (max 0 (min 100 x))"
  "Math_max_N (Finite 0) (Math_min_N (Finite 100) PosInfinity) = Finite 100"
  "Math_max_N (Finite 0) (Math_min_N (Finite 100) NegInfinity) = Finite 0"
  "Math_max_N (Finite 0) (Math_min_N (Finite 100) NaN) = NaN"
  by simp_all

lemma clamp_N_idem:
  "Math_max_N (Finite 0) (Math_min_N (Finite 100)
     (Math_max_N (Finite 0) (Math_min_N (Finite 100) x))) =
   Math_max_N (Finite 0) (Math_min_N (Finite 100) x)"
  by (cases x) simp_all

lemma hsbToRgb_Number_clamp:
  "hsbToRgb_Number h s v =
   hsbToRgb_Number h (Math_max_N (Finite 0) (Math_min_N (Finite 100) s))
     (Math_max_N (Finite 0) (Math_min_N (Finite 100) v))"
  by (simp only: hsbToRgb_Number_def clamp_N_idem)

lemma clamp_N_finite:
  assumes "x \<noteq> NaN"
  shows "\<exists>y. Math_max_N (Finite 0) (Math_min_N (Finite 100) x) =
             Math_max_N (Finite 0) (Math_min_N (Finite 100) (Finite y))"
proof (cases x)
  case (Finite y)
  then show ?thesis by blast
next
  case PosInfinity
  then show ?thesis by (intro exI[of _ 100]) simp
next
  case NegInfinity
  then show ?thesis by (intro exI[of _ 0]) simp
next
  case NaN
  then show ?thesis using assms by simp
qed

lemma is_byte_int: "0 \<le> k \<Longrightarrow> k \<le> 255 \<Longrightarrow> is_byte (Finite (of_int k))"
  by (simp add: is_byte_def)

lemma hsbToRgb_Number_bytes:
  assumes "s \<noteq> NaN" and "v \<noteq> NaN"
  shows "is_byte (r_N (hsbToRgb_Number (Finite h) s v))"
    and "is_byte (g_N (hsbToRgb_Number (Finite h) s v))"
    and "is_byte (b_N (hsbToRgb_Number (Finite h) s v))"
proof -
  obtain x where x: "Math_max_N (Finite 0) (Math_min_N (Finite 100) s) =
      Math_max_N (Finite 0) (Math_min_N (Finite 100) (Finite x))"
    using clamp_N_finite[OF assms(1)] by blast
  obtain y where y: "Math_max_N (Finite 0) (Math_min_N (Finite 100) v) =
      Math_max_N (Finite 0) (Math_min_N (Finite 100) (Finite y))"
    using clamp_N_finite[OF assms(2)] by blast
  have "hsbToRgb_Number (Finite h) s v = hsbToRgb_Number (Finite h) (Finite x) (Finite y)"
    using hsbToRgb_Number_clamp[of "Finite h" s v]
      hsbToRgb_Number_clamp[of "Finite h" "Finite x" "Finite y"] by (simp only: x y)
  moreover obtain c where "hsbToRgb h x y = Some c" "0 \<le> r c" "r c \<le> 255"
    "0 \<le> g c" "g c \<le> 255" "0 \<le> b c" "b c \<le> 255"
    using hsbToRgb_real_range[of h x y] by blast
  ultimately show "is_byte (r_N (hsbToRgb_Number (Finite h) s v))"
    and "is_byte (g_N (hsbToRgb_Number (Finite h) s v))"
    and "is_byte (b_N (hsbToRgb_Number (Finite h) s v))"
    by (simp_all add: hsbToRgb_Number_finite is_byte_int)
qed

text \<open>
  Claim C7 (range safety of the conversion), as amended. For every finite hue, in or
  out of \<open>[0, 360)\<close>, and every saturation and brightness other than NaN, the three
  components that \<open>hsbToRgb\<close> returns are integers from 0 to 255. Saturation and
  brightness act only through their values clamped into \<open>[0, 100]\<close>, so the saturation
  125 gives what 100 gives. When the hue is NaN or an infinity the \<^verbatim>\<open>switch\<close> matches
  no case, and then, as when the brightness is NaN, all three components are NaN. On
  finite arguments the function is the \<open>hsbToRgb\<close> of the worker of this model, whose
  \<^verbatim>\<open>switch\<close> always matches; and every pixel of a worker's buffer has bytes below 256
  and the alpha byte 255.
\<close>

theorem hsbToRgb_range_finite:
  "(s \<noteq> NaN \<and> v \<noteq> NaN \<longrightarrow>
      is_byte (r_N (hsbToRgb_Number (Finite h) s v)) \<and>
      is_byte (g_N (hsbToRgb_Number (Finite h) s v)) \<and>
      is_byte (b_N (hsbToRgb_Number (Finite h) s v)))
   \<and> hsbToRgb_Number hN s v =
       hsbToRgb_Number hN (Math_max_N (Finite 0) (Math_min_N (Finite 100) s))
         (Math_max_N (Finite 0) (Math_min_N (Finite 100) v))
   \<and> (hN = NaN \<or> hN = PosInfinity \<or> hN = NegInfinity \<or> v = NaN \<longrightarrow>
        hsbToRgb_Number hN s v = \<lparr>r_N = NaN, g_N = NaN, b_N = NaN\<rparr>)
   \<and> hsbToRgb_Number (Finite h) (Finite x) (Finite y) =
       (case hsbToRgb h x y of
          None \<Rightarrow> \<lparr>r_N = NaN, g_N = NaN, b_N = NaN\<rparr>
        | Some c \<Rightarrow> \<lparr>r_N = Finite (of_int (r c)), g_N = Finite (of_int (g c)),
                     b_N = Finite (of_int (b c))\<rparr>)
   \<and> (\<exists>c. hsbToRgb h x y = Some c \<and> 0 \<le> r c \<and> r c \<le> 255 \<and>
          0 \<le> g c \<and> g c \<le> 255 \<and> 0 \<le> b c \<and> b c \<le> 255)
   \<and> hsbToRgb h x y = hsbToRgb h (max 0 (min 100 x)) (max 0 (min 100 y))
   \<and> (\<forall>m d p. worker_onmessage m = Inr d \<and>
          p < m_tileWidth m * (endYInTile m - startYInTile m) \<longrightarrow>
          pixels d ! (p * 4 + 3) = 255 \<and> (\<forall>c<4. pixels d ! (p * 4 + c) < 256))"
proof (intro conjI allI impI)
  assume a: "s \<noteq> NaN \<and> v \<noteq> NaN"
  then show "is_byte (r_N (hsbToRgb_Number (Finite h) s v))"
    "is_byte (g_N (hsbToRgb_Number (Finite h) s v))"
    "is_byte (b_N (hsbToRgb_Number (Finite h) s v))"
    by (simp_all add: hsbToRgb_Number_bytes)
next
  show "hsbToRgb_Number hN s v =
       hsbToRgb_Number hN (Math_max_N (Finite 0) (Math_min_N (Finite 100) s))
         (Math_max_N (Finite 0) (Math_min_N (Finite 100) v))"
    by (rule hsbToRgb_Number_clamp)
next
  assume "hN = NaN \<or> hN = PosInfinity \<or> hN = NegInfinity \<or> v = NaN"
  then show "hsbToRgb_Number hN s v = \<lparr>r_N = NaN, g_N = NaN, b_N = NaN\<rparr>"
    using hsbToRgb_Number_hue_not_finite[of hN s v] hsbToRgb_Number_brightness_NaN[of hN s]
    by blast
next
  show "hsbToRgb_Number (Finite h) (Finite x) (Finite y) =
       (case hsbToRgb h x y of
          None \<Rightarrow> \<lparr>r_N = NaN, g_N = NaN, b_N = NaN\<rparr>
        | Some c \<Rightarrow> \<lparr>r_N = Finite (of_int (r c)), g_N = Finite (of_int (g c)),
                     b_N = Finite (of_int (b c))\<rparr>)"
    by (rule hsbToRgb_Number_finite)
  show "\<exists>c. hsbToRgb h x y = Some c \<and> 0 \<le> r c \<and> r c \<le> 255 \<and>
          0 \<le> g c \<and> g c \<le> 255 \<and> 0 \<le> b c \<and> b c \<le> 255"
    by (rule hsbToRgb_real_range)
  show "hsbToRgb h x y = hsbToRgb h (max 0 (min 100 x)) (max 0 (min 100 y))"
    by (rule hsbToRgb_real_clamp)
next
  fix m d p
  assume a: "worker_onmessage m = Inr d \<and> p < m_tileWidth m * (endYInTile m - startYInTile m)"
  then show "pixels d ! (p * 4 + 3) = 255" using worker_alpha(1)[of m d p] by blast
  fix c :: nat assume "c < 4"
  then show "pixels d ! (p * 4 + c) < 256" using a worker_alpha(2)[of m d p c] by blast
qed

theorem hsbToRgb_range_finite_witness:
  "is_byte (r_N (hsbToRgb_Number (Finite (- 30)) (Finite 125) PosInfinity))
   \<and> is_byte (g_N (hsbToRgb_Number (Finite (- 30)) (Finite 125) PosInfinity))
   \<and> is_byte (b_N (hsbToRgb_Number (Finite (- 30)) (Finite 125) PosInfinity))
   \<and> hsbToRgb_Number (Finite (- 30)) (Finite 125) (Finite 50) =
       hsbToRgb_Number (Finite (- 30)) (Finite 100) (Finite 50)
   \<and> hsbToRgb_Number NegInfinity (Finite 125) (Finite 50) = \<lparr>r_N = NaN, g_N = NaN, b_N = NaN\<rparr>
   \<and> (\<exists>d. worker_onmessage mS = Inr d \<and> pixels d ! 3 = 255)"
proof -
  note A = hsbToRgb_range_finite[of "Finite 125" PosInfinity "- 30" NegInfinity 0 0]
  note B = hsbToRgb_range_finite[of "Finite 125" "Finite 50" "- 30" "Finite (- 30)" 0 0]
  have ne: "Finite 125 \<noteq> NaN \<and> PosInfinity \<noteq> NaN" by simp
  have bytes: "is_byte (r_N (hsbToRgb_Number (Finite (- 30)) (Finite 125) PosInfinity)) \<and>
      is_byte (g_N (hsbToRgb_Number (Finite (- 30)) (Finite 125) PosInfinity)) \<and>
      is_byte (b_N (hsbToRgb_Number (Finite (- 30)) (Finite 125) PosInfinity))"
    using A[THEN conjunct1] ne by blast
  have clamp: "hsbToRgb_Number (Finite (- 30)) (Finite 125) (Finite 50) =
       hsbToRgb_Number (Finite (- 30)) (Finite 100) (Finite 50)"
    using B[THEN conjunct2, THEN conjunct1] by simp
  have nan': "hsbToRgb_Number NegInfinity (Finite 125) (Finite 50) = \<lparr>r_N = NaN, g_N = NaN, b_N = NaN\<rparr>"
    using hsbToRgb_range_finite[of "Finite 125" "Finite 50" 0 NegInfinity 0 0,
        THEN conjunct2, THEN conjunct2, THEN conjunct1] by blast
  obtain d where d: "worker_onmessage mS = Inr d"
    by (simp add: worker_onmessage_def mS_def Let_def)
  have "worker_onmessage mS = Inr d \<and> 0 < m_tileWidth mS * (endYInTile mS - startYInTile mS)"
    using d by (simp add: mS_def)
  then have "pixels d ! (0 * 4 + 3) = 255"
    using A[THEN conjunct2, THEN conjunct2, THEN conjunct2, THEN conjunct2, THEN conjunct2,
        THEN conjunct2] by blast
  then have "\<exists>d. worker_onmessage mS = Inr d \<and> pixels d ! 3 = 255" using d by auto
  then show ?thesis using bytes clamp nan' by blast
qed

text \<open>
  As first stated the claim covers every input. At an infinite hue the remainder of
  line 237 is NaN, the \<^verbatim>\<open>switch\<close> matches no case, and the red component is NaN, no
  integer from 0 to 255.
\<close>

theorem hsbToRgb_range_counterexample:
  "\<not> is_byte (r_N (hsbToRgb_Number PosInfinity (Finite 125) (Finite 50)))"
  by (simp add: hsbToRgb_Number_def is_byte_def)

lemma escaped_magnitude:
  assumes "iter (mandel_loop cx cy n z_init) < n"
  shows "2 \<le> sqrt (zx2 (mandel_loop cx cy n z_init) + zy2 (mandel_loop cx cy n z_init))"
proof -
  have "4 \<le> zx2 (mandel_loop cx cy n z_init) + zy2 (mandel_loop cx cy n z_init)"
    using mandel_loop_exit[of cx cy n z_init] assms by simp
  then have "2\<^sup>2 \<le> zx2 (mandel_loop cx cy n z_init) + zy2 (mandel_loop cx cy n z_init)" by simp
  then show ?thesis by (rule real_le_rsqrt)
qed

lemma log_arg_ge_1:
  assumes "2 \<le> zn"
  shows "1 \<le> Math_log (max zn (1 / 10 ^ 10)) / Math_LN2"
proof -
  have "max zn (1 / 10 ^ 10) = zn" using assms by (simp add: max_def)
  moreover have "ln 2 \<le> ln zn" using assms by simp
  moreover have "0 < ln (2::real)" by simp
  ultimately show ?thesis by (simp add: Math_log_def Math_LN2_def)
qed

lemma smooth_hsb_spec: "smooth_hsb n it zn = (spec_hue n it zn, 125, spec_brightness n it zn)"
  by (simp add: smooth_hsb_def spec_hue_def spec_brightness_def spec_smoothIter_def
      Math_log_def Math_LN2_def Let_def)

text \<open>
  Claim C6 (colour formula). The hue, saturation and brightness that the worker computes
  for an iteration count and a magnitude are the claim's formulas, the claim's \<open>mod\<close>
  being the remainder operator of the source (the sign of the dividend). For a pixel
  whose loop ends below the cap the magnitude is at least 2, both logarithms are taken
  of positive numbers, and the pixel's bytes are the conversion of these three values.
  When \<open>smoothIter\<close> is not negative the hue is also the non-negative remainder modulo
  360, and in every case the conversion gives the same colour for both remainders.
\<close>

theorem smooth_color_formula:
  "smooth_hsb n it zn = (spec_hue n it zn, 125, spec_brightness n it zn)
   \<and> (iter (mandel_loop cx cy n z_init) < n \<longrightarrow>
        2 \<le> sqrt (zx2 (mandel_loop cx cy n z_init) + zy2 (mandel_loop cx cy n z_init)) \<and>
        1 \<le> Math_log (max (sqrt (zx2 (mandel_loop cx cy n z_init) + zy2 (mandel_loop cx cy n z_init)))
                (1 / 10 ^ 10)) / Math_LN2 \<and>
        shade n cx cy =
          rgba_bytes (hsbToRgb
            (spec_hue n (iter (mandel_loop cx cy n z_init))
               (sqrt (zx2 (mandel_loop cx cy n z_init) + zy2 (mandel_loop cx cy n z_init))))
            125
            (spec_brightness n (iter (mandel_loop cx cy n z_init))
               (sqrt (zx2 (mandel_loop cx cy n z_init) + zy2 (mandel_loop cx cy n z_init))))))
   \<and> (0 \<le> spec_smoothIter it zn \<longrightarrow>
        spec_hue n it zn = floor_mod360 (spec_smoothIter it zn / real n * 1080))
   \<and> hsbToRgb (spec_hue n it zn) sa br =
       hsbToRgb (floor_mod360 (spec_smoothIter it zn / real n * 1080)) sa br"
proof (intro conjI impI)
  show "smooth_hsb n it zn = (spec_hue n it zn, 125, spec_brightness n it zn)"
    by (rule smooth_hsb_spec)
  show "hsbToRgb (spec_hue n it zn) sa br =
       hsbToRgb (floor_mod360 (spec_smoothIter it zn / real n * 1080)) sa br"
    unfolding spec_hue_def by (rule hsbToRgb_hue_mod)
next
  assume "0 \<le> spec_smoothIter it zn"
  then have "0 \<le> spec_smoothIter it zn / real n * 1080" by simp
  then show "spec_hue n it zn = floor_mod360 (spec_smoothIter it zn / real n * 1080)"
    unfolding spec_hue_def by (rule js_rem_nonneg)
next
  let ?s = "mandel_loop cx cy n z_init"
  assume esc: "iter ?s < n"
  then show zn: "2 \<le> sqrt (zx2 ?s + zy2 ?s)" by (rule escaped_magnitude)
  then show "1 \<le> Math_log (max (sqrt (zx2 ?s + zy2 ?s)) (1 / 10 ^ 10)) / Math_LN2"
    by (rule log_arg_ge_1)
  show "shade n cx cy =
          rgba_bytes (hsbToRgb (spec_hue n (iter ?s) (sqrt (zx2 ?s + zy2 ?s))) 125
            (spec_brightness n (iter ?s) (sqrt (zx2 ?s + zy2 ?s))))"
    using esc by (simp add: shade_def Let_def smooth_hsb_spec)
qed

theorem smooth_color_formula_witness:
  "iter (mandel_loop 2 2 10 z_init) < 10 \<and>
   shade 10 2 2 = rgba_bytes (hsbToRgb (spec_hue 10 1 (sqrt 8)) 125 (spec_brightness 10 1 (sqrt 8)))"
proof -
  have esc: "iter (mandel_loop 2 2 10 z_init) < 10" by (simp add: mandel_2_2)
  note T = smooth_color_formula[of 10 0 0 2 2, THEN conjunct2, THEN conjunct1, rule_format, OF esc]
  have "shade 10 2 2 = rgba_bytes (hsbToRgb (spec_hue 10 1 (sqrt 8)) 125 (spec_brightness 10 1 (sqrt 8)))"
    using T by (simp add: mandel_2_2)
  with esc show ?thesis by blast
qed

end
